theory Spec2Isabelle
  imports Complex_Main "HOL-Library.AList" "HOL-Library.Sublist" "HOL-Library.Multiset"
begin

section \<open>Frame sampling: \<open>extract_frames_from_video\<close>\<close>

subsection \<open>Paths, numbers and errors\<close>

text \<open>
  A path is kept as the list of its components (absolute and normalised), so that
  \<open>os.path.join\<close> with a file name appends one component. The names handled here
  (\<open>frame_0000.jpg\<close>, the names of directory entries, the archive name) are single
  components.
\<close>

type_synonym path = "string list"

definition os_path_join :: "path \<Rightarrow> string \<Rightarrow> path" where
  "os_path_join d n = d @ [n]"

text \<open>
  The exceptions the two functions can raise. \<open>ZeroDivisionError\<close> comes from
  Python's \<open>%\<close> and \<open>/\<close>; \<open>StreamlitAPIException\<close> from the progress bar, when
  it is given a value outside its range; the last three from opening a file for writing.
\<close>

datatype py_error =
    ZeroDivisionError
  | StreamlitAPIException
  | FileNotFoundError
  | NotADirectoryError
  | IsADirectoryError

text \<open>
  The numbers OpenCV reports (frame rate, declared frame count) and the interval are
  finite floating-point values (binary64); each is kept as the rational it stands for.
  Python's \<open>int(x)\<close> on such a number truncates toward zero.
\<close>

definition py_int :: "rat \<Rightarrow> int" where
  "py_int x = (if 0 \<le> x then \<lfloor>x\<rfloor> else \<lceil>x\<rceil>)"

subsection \<open>Floating-point arithmetic\<close>

text \<open>
  An operation on floats gives the exact result rounded to the nearest binary64 value,
  ties to the even significand. \<open>exponent x\<close> is the \<open>e\<close> with
  \<open>2\<^sup>e \<le> x < 2\<^sup>e\<^sup>+\<^sup>1\<close> for a positive \<open>x\<close>; the significand has 53 bits, and below
  \<open>2\<^sup>-\<^sup>1\<^sup>0\<^sup>2\<^sup>2\<close> the spacing stays that of the subnormal numbers. Results are taken to
  stay below \<open>2\<^sup>1\<^sup>0\<^sup>2\<^sup>4\<close>: there is no infinity.
\<close>

fun bit_length :: "nat \<Rightarrow> nat" where
  "bit_length n = (if n = 0 then 0 else Suc (bit_length (n div 2)))"

declare bit_length.simps [simp del]

definition exponent :: "rat \<Rightarrow> int" where
  "exponent x = (if 1 \<le> x then int (bit_length (nat \<lfloor>x\<rfloor>)) - 1
                 else - int (bit_length (nat (\<lceil>1 / x\<rceil> - 1))))"

definition scale :: "rat \<Rightarrow> int \<Rightarrow> rat" where
  "scale x k = (if 0 \<le> k then x * 2 ^ nat k else x / 2 ^ nat (- k))"

definition round_half_even :: "rat \<Rightarrow> int" where
  "round_half_even m =
     (let f = \<lfloor>m\<rfloor>; r = m - of_int f
      in if r < 1 / 2 then f else if 1 / 2 < r then f + 1 else if even f then f else f + 1)"

definition double :: "rat \<Rightarrow> rat" where
  "double x =
     (if x = 0 then 0
      else let e = max (exponent \<bar>x\<bar>) (- 1022);
               m = round_half_even (scale \<bar>x\<bar> (52 - e))
           in sgn x * scale (of_int m) (e - 52))"

text \<open>
  \<open>a * b\<close> on two floats, and \<open>a / b\<close> on two Python integers (true division, which
  raises on a zero divisor: the caller tests for it).
\<close>

definition float_mul :: "rat \<Rightarrow> rat \<Rightarrow> rat" where
  "float_mul a b = double (a * b)"

definition int_truediv :: "int \<Rightarrow> int \<Rightarrow> rat" where
  "int_truediv a b = double (of_int a / of_int b)"

subsection \<open>The video source\<close>

text \<open>
  \<open>cv2.VideoCapture(video_path)\<close>: the two properties the code asks for and the
  frames that \<open>read()\<close> will still deliver before it first answers \<open>ret = False\<close>
  (end of the stream or a decoding error). A file that cannot be opened is the
  capture with both properties 0 and no frame.
\<close>

record 'f VideoCapture =
  CAP_PROP_FPS :: rat
  CAP_PROP_FRAME_COUNT :: rat
  stream :: "'f list"

definition read :: "'f VideoCapture \<Rightarrow> 'f option \<times> 'f VideoCapture" where
  "read cap = (case stream cap of
                 [] \<Rightarrow> (None, cap)
               | frame # rest \<Rightarrow> (Some frame, cap\<lparr>stream := rest\<rparr>))"

subsection \<open>File names: \<open>f"frame_{saved_count:04d}.jpg"\<close>\<close>

definition digit_char :: "nat \<Rightarrow> char" where
  "digit_char d = ''0123456789'' ! d"

fun str_nat :: "nat \<Rightarrow> string" where
  "str_nat n = (if n < 10 then [digit_char n]
                else str_nat (n div 10) @ [digit_char (n mod 10)])"

declare str_nat.simps [simp del]

definition zfill :: "nat \<Rightarrow> string \<Rightarrow> string" where
  "zfill w s = replicate (w - length s) (CHR ''0'') @ s"

text \<open>The format \<open>04d\<close>: at least four characters, padded with zeros after the sign.\<close>

definition format_04d :: "int \<Rightarrow> string" where
  "format_04d k = (if k < 0 then CHR ''-'' # zfill 3 (str_nat (nat (- k)))
                   else zfill 4 (str_nat (nat k)))"

definition frame_filename :: "int \<Rightarrow> string" where
  "frame_filename saved = ''frame_'' @ format_04d saved @ ''.jpg''"

subsection \<open>The loop\<close>

text \<open>
  The local variables of the function together with what it has done to the outside:
  \<open>written\<close> lists the calls of \<open>cv2.imwrite\<close> (path and frame, oldest first; the
  bytes of the file are OpenCV's JPEG encoding of that frame) and \<open>progress_bar\<close> the
  values the progress bar has shown. \<open>os.makedirs\<close> and \<open>cv2.imwrite\<close> are taken to
  succeed: the destination is writable.
\<close>

record 'f locals =
  cap :: "'f VideoCapture"
  frame_count :: int
  saved_count :: int
  written :: "(path \<times> 'f) list"
  progress_bar :: "rat list"

text \<open>
  \<open>progress_bar.progress(value)\<close> with a float: Streamlit takes a value between 0.0 and
  1.0, and also one that \<open>math.isclose\<close> finds close to either bound (relative and
  absolute tolerance \<open>1e-9\<close>); any other value raises.
\<close>

definition isclose :: "rat \<Rightarrow> rat \<Rightarrow> bool" where
  "isclose a b \<longleftrightarrow> \<bar>a - b\<bar> \<le> max (1 / 10 ^ 9 * max \<bar>a\<bar> \<bar>b\<bar>) (1 / 10 ^ 9)"

definition st_progress :: "rat \<Rightarrow> 'f locals \<Rightarrow> py_error option \<times> 'f locals" where
  "st_progress v s =
     (if (0 \<le> v \<and> v \<le> 1) \<or> isclose v 0 \<or> isclose v 1
      then (None, s\<lparr>progress_bar := progress_bar s @ [v]\<rparr>)
      else (Some StreamlitAPIException, s))"

text \<open>
  One pass through the body of \<open>while True\<close> after a successful \<open>read\<close>. The result
  is the exception raised, if any, and the state reached.
\<close>

definition loop_body ::
  "int \<Rightarrow> int \<Rightarrow> path \<Rightarrow> 'f \<Rightarrow> 'f locals \<Rightarrow> py_error option \<times> 'f locals" where
  "loop_body frame_interval total_frames output_dir frame s =
     (if frame_interval = 0 then (Some ZeroDivisionError, s)
      else
        let s1 = (if frame_count s mod frame_interval = 0
                  then s\<lparr>written := written s @
                            [(os_path_join output_dir (frame_filename (saved_count s)), frame)],
                         saved_count := saved_count s + 1\<rparr>
                  else s);
            s2 = s1\<lparr>frame_count := frame_count s1 + 1\<rparr>
        in if total_frames = 0 then (Some ZeroDivisionError, s2)
           else st_progress (min (int_truediv (frame_count s2) total_frames) 1) s2)"

function frames_loop ::
  "int \<Rightarrow> int \<Rightarrow> path \<Rightarrow> 'f locals \<Rightarrow> py_error option \<times> 'f locals" where
  "frames_loop frame_interval total_frames output_dir s =
     (case read (cap s) of
        (None, c) \<Rightarrow> (None, s\<lparr>cap := c\<rparr>)
      | (Some frame, c) \<Rightarrow>
          (case loop_body frame_interval total_frames output_dir frame (s\<lparr>cap := c\<rparr>) of
             (Some e, s') \<Rightarrow> (Some e, s')
           | (None, s') \<Rightarrow> frames_loop frame_interval total_frames output_dir s'))"
  by pat_completeness auto
termination
  by (relation "measure (\<lambda>(S, T, d, s). length (stream (cap s)))")
     (auto simp: read_def loop_body_def st_progress_def Let_def
           split: list.splits if_splits)

declare frames_loop.simps [simp del]

text \<open>
  Lines 18, 19 and 25: the frame step and the declared number of frames.
\<close>

definition frame_interval :: "'f VideoCapture \<Rightarrow> rat \<Rightarrow> int" where
  "frame_interval video interval_seconds =
     py_int (float_mul (CAP_PROP_FPS video) interval_seconds)"

definition total_frames :: "'f VideoCapture \<Rightarrow> int" where
  "total_frames video = py_int (CAP_PROP_FRAME_COUNT video)"

text \<open>
  The function: the outcome is the exception or the returned pair
  \<open>(saved_count, output_dir)\<close>; the second component is the final state, which holds
  the files written and the progress values shown up to that point.
\<close>

definition extract_frames_from_video ::
  "'f VideoCapture \<Rightarrow> rat \<Rightarrow> path \<Rightarrow> (py_error + int \<times> path) \<times> 'f locals" where
  "extract_frames_from_video video interval_seconds output_dir =
     (let s0 = \<lparr>cap = video, frame_count = 0, saved_count = 0, written = [],
                progress_bar = [0]\<rparr>;
          (e, s) = frames_loop (frame_interval video interval_seconds) (total_frames video)
                     output_dir s0
      in case e of
           Some err \<Rightarrow> (Inl err, s)
         | None \<Rightarrow> (Inr (saved_count s, output_dir), s))"

subsection \<open>What a run is expected to leave behind\<close>

text \<open>
  The indices below \<open>c\<close> that the test \<open>frame_count % frame_interval == 0\<close> selects,
  the files a run that has consumed \<open>c\<close> frames has written (the \<open>k\<close>-th selected frame
  under the \<open>k\<close>-th file name), and the values the progress bar has shown by then.
\<close>

definition sampled :: "int \<Rightarrow> nat \<Rightarrow> nat list" where
  "sampled S c = filter (\<lambda>i. int i mod S = 0) [0..<c]"

definition named :: "int \<Rightarrow> 'f list \<Rightarrow> nat \<Rightarrow> (string \<times> 'f) list" where
  "named S fs c = map (\<lambda>(k, i). (frame_filename (int k), fs ! i)) (enumerate 0 (sampled S c))"

definition images :: "int \<Rightarrow> path \<Rightarrow> 'f list \<Rightarrow> nat \<Rightarrow> (path \<times> 'f) list" where
  "images S d fs c =
     map (\<lambda>(k, i). (os_path_join d (frame_filename (int k)), fs ! i)) (enumerate 0 (sampled S c))"

definition shown :: "int \<Rightarrow> nat \<Rightarrow> rat list" where
  "shown T c = 0 # map (\<lambda>i. min (int_truediv (int i) T) 1) [1..<Suc c]"

text \<open>The number a string of decimal digits stands for.\<close>

definition digits_value :: "string \<Rightarrow> nat" where
  "digits_value s = foldl (\<lambda>a c. 10 * a + (of_char c - 48)) 0 s"

text \<open>The same state with every file written moved into the directory \<open>d\<close>.\<close>

definition relocate :: "path \<Rightarrow> 'f locals \<Rightarrow> 'f locals" where
  "relocate d s = s\<lparr>written := map (\<lambda>(p, f). (os_path_join d (last p), f)) (written s)\<rparr>"

section \<open>Archive building: \<open>create_zip_from_folder\<close>\<close>

subsection \<open>The filesystem\<close>

text \<open>
  A regular file holds bytes, or is a ZIP container with its list of members (member name
  and compressed data, in the order they were added). A directory lists its entries by
  name, in the order \<open>os.scandir\<close> reports them. The filesystem is the root directory;
  there are no symbolic links, and every file can be read.
\<close>

type_synonym bytes = string

type_synonym zipfile = "(string \<times> bytes) list"

datatype content = Raw bytes | Zip zipfile

datatype node = is_File: File (content_of: content) | is_Dir: Dir "(string \<times> node) list"

fun lookup :: "node \<Rightarrow> path \<Rightarrow> node option" where
  "lookup n [] = Some n"
| "lookup (File c) (x # p) = None"
| "lookup (Dir es) (x # p) = (case map_of es x of None \<Rightarrow> None | Some n \<Rightarrow> lookup n p)"

text \<open>
  Opening a path for writing and storing a content there: the file is created in an
  existing directory or replaced. The errors are those of \<open>open\<close>.
\<close>

fun write_file :: "path \<Rightarrow> content \<Rightarrow> node \<Rightarrow> py_error + node" where
  "write_file [] c (File old) = Inr (File c)"
| "write_file [] c (Dir es) = Inl IsADirectoryError"
| "write_file (x # p) c (File old) = Inl NotADirectoryError"
| "write_file (x # p) c (Dir es) =
     (case map_of es x of
        None \<Rightarrow> if p = [] then Inr (Dir (AList.update x (File c) es)) else Inl FileNotFoundError
      | Some n \<Rightarrow>
          (case write_file p c n of
             Inl e \<Rightarrow> Inl e
           | Inr n' \<Rightarrow> Inr (Dir (AList.update x n' es))))"

text \<open>
  The names a filesystem gives to directory entries: not empty, without a separator,
  neither \<open>.\<close> nor \<open>..\<close>, and no name twice in one directory.
\<close>

definition valid_name :: "string \<Rightarrow> bool" where
  "valid_name n \<longleftrightarrow> n \<noteq> [] \<and> CHR ''/'' \<notin> set n \<and> n \<noteq> ''.'' \<and> n \<noteq> ''..''"

fun wf_node :: "node \<Rightarrow> bool" where
  "wf_node (File c) = True"
| "wf_node (Dir es) = (distinct (map fst es) \<and> (\<forall>(n, m) \<in> set es. valid_name n \<and> wf_node m))"

text \<open>
  The regular files under a node, each with its path relative to the node and its
  content.
\<close>

fun regular_files :: "node \<Rightarrow> (path \<times> content) list" where
  "regular_files (File c) = [([], c)]"
| "regular_files (Dir es) =
     concat (map (\<lambda>(n, m). map (\<lambda>(p, c). (n # p, c)) (regular_files m)) es)"

text \<open>The same files, in the order in which \<open>os.walk\<close> meets them.\<close>

fun walk_files :: "node \<Rightarrow> (path \<times> content) list" where
  "walk_files (File c) = []"
| "walk_files (Dir es) =
     map (\<lambda>(n, m). ([n], content_of m)) (filter (is_File \<circ> snd) es) @
     concat (map (\<lambda>(n, m). map (\<lambda>(p, c). (n # p, c)) (walk_files m))
               (filter (is_Dir \<circ> snd) es))"

subsection \<open>\<open>os.walk\<close> and \<open>os.path.relpath\<close>\<close>

text \<open>
  \<open>os.walk\<close>, top down: a directory yields its path, the names of its sub-directories and
  the names of its other entries, and then the sub-directories are walked in turn. A path
  that is not a directory yields nothing (\<open>onerror\<close> is not set, the error of
  \<open>os.scandir\<close> is dropped).
\<close>

fun walk :: "path \<Rightarrow> node \<Rightarrow> (path \<times> string list \<times> string list) list" where
  "walk dirpath (File c) = []"
| "walk dirpath (Dir es) =
     (dirpath, map fst (filter (is_Dir \<circ> snd) es), map fst (filter (is_File \<circ> snd) es)) #
     concat (map (\<lambda>(n, m). walk (os_path_join dirpath n) m) (filter (is_Dir \<circ> snd) es))"

definition os_walk :: "node \<Rightarrow> path \<Rightarrow> (path \<times> string list \<times> string list) list" where
  "os_walk fs dirpath =
     (case lookup fs dirpath of Some (Dir es) \<Rightarrow> walk dirpath (Dir es) | _ \<Rightarrow> [])"

text \<open>
  \<open>posixpath.relpath\<close> works on the components of the two absolute paths: it drops their
  common prefix, climbs with \<open>..\<close> out of what is left of \<open>start\<close>, and joins the result
  with the separator.
\<close>

fun commonprefix :: "'a list \<Rightarrow> 'a list \<Rightarrow> 'a list" where
  "commonprefix (x # xs) (y # ys) = (if x = y then x # commonprefix xs ys else [])"
| "commonprefix xs ys = []"

fun sep_join :: "string list \<Rightarrow> string" where
  "sep_join [] = []"
| "sep_join [x] = x"
| "sep_join (x # y # ys) = x @ CHR ''/'' # sep_join (y # ys)"

definition os_path_relpath :: "path \<Rightarrow> path \<Rightarrow> string" where
  "os_path_relpath p start =
     (let i = length (commonprefix start p);
          rel_list = replicate (length start - i) ''..'' @ drop i p
      in if rel_list = [] then ''.'' else sep_join rel_list)"

subsection \<open>Writing the archive\<close>

text \<open>
  \<open>zipf.write(file_path, arcname)\<close> adds one member: the compressed content of a regular
  file, or an empty member named \<open>arcname/\<close> for a directory. The compression
  (\<open>ZIP_DEFLATED\<close>, zlib's) is the parameter \<open>deflate\<close>. On a name that
  \<open>os.path.relpath\<close> has produced, the normalisation that \<open>zipfile\<close> applies to
  \<open>arcname\<close> changes nothing.
\<close>

definition ZipFile_write ::
  "(content \<Rightarrow> bytes) \<Rightarrow> node \<Rightarrow> path \<Rightarrow> string \<Rightarrow> zipfile \<Rightarrow> py_error + zipfile" where
  "ZipFile_write deflate fs file_path arcname zipf =
     (case lookup fs file_path of
        None \<Rightarrow> Inl FileNotFoundError
      | Some (File c) \<Rightarrow> Inr (zipf @ [(arcname, deflate c)])
      | Some (Dir es) \<Rightarrow> Inr (zipf @ [(arcname @ ''/'', [])]))"

text \<open>The inner loop, \<open>for file in files\<close>, and the outer one over \<open>os.walk\<close>.\<close>

fun for_files ::
  "(content \<Rightarrow> bytes) \<Rightarrow> node \<Rightarrow> path \<Rightarrow> path \<Rightarrow> string list \<Rightarrow> zipfile \<Rightarrow> py_error + zipfile" where
  "for_files deflate fs folder_path dirpath [] zipf = Inr zipf"
| "for_files deflate fs folder_path dirpath (file # files) zipf =
     (let file_path = os_path_join dirpath file;
          arcname = os_path_relpath file_path folder_path
      in case ZipFile_write deflate fs file_path arcname zipf of
           Inl e \<Rightarrow> Inl e
         | Inr zipf' \<Rightarrow> for_files deflate fs folder_path dirpath files zipf')"

fun for_walk ::
  "(content \<Rightarrow> bytes) \<Rightarrow> node \<Rightarrow> path \<Rightarrow> (path \<times> string list \<times> string list) list \<Rightarrow>
   zipfile \<Rightarrow> py_error + zipfile" where
  "for_walk deflate fs folder_path [] zipf = Inr zipf"
| "for_walk deflate fs folder_path ((dirpath, dirs, files) # rest) zipf =
     (case for_files deflate fs folder_path dirpath files zipf of
        Inl e \<Rightarrow> Inl e
      | Inr zipf' \<Rightarrow> for_walk deflate fs folder_path rest zipf')"

text \<open>
  \<open>zipfile.ZipFile(zip_path, 'w', ...)\<close> creates the file or empties it; leaving the
  \<open>with\<close> block writes the container. While the walk runs, the archive file is read as
  the empty file that opening it has left: this matters only when the archive lies inside
  \<open>folder_path\<close>, where the real walk reads the bytes flushed so far, and the content of
  that one member is then left open here (its name and path are as the code gives them).
  Files carry no modification time: the \<open>ValueError\<close> that \<open>zipfile\<close> raises for a time
  stamp before 1980 has no counterpart.
\<close>

definition ZipFile_open :: "path \<Rightarrow> node \<Rightarrow> py_error + node" where
  "ZipFile_open zip_path fs = write_file zip_path (Raw []) fs"

definition ZipFile_close :: "path \<Rightarrow> zipfile \<Rightarrow> node \<Rightarrow> py_error + node" where
  "ZipFile_close zip_path zipf fs = write_file zip_path (Zip zipf) fs"

text \<open>
  The function. Besides the two arguments of the source it takes the compression, the
  directory \<open>tempfile.gettempdir()\<close> answers, and the filesystem; it returns the exception,
  or \<open>zip_path\<close> and the filesystem it leaves.
\<close>

definition default_zip_name :: string where
  "default_zip_name = ''extracted_frames.zip''"

definition create_zip_from_folder ::
  "(content \<Rightarrow> bytes) \<Rightarrow> path \<Rightarrow> node \<Rightarrow> path \<Rightarrow> string \<Rightarrow> py_error + path \<times> node" where
  "create_zip_from_folder deflate gettempdir fs folder_path zip_name =
     (let zip_path = os_path_join gettempdir zip_name
      in case ZipFile_open zip_path fs of
           Inl e \<Rightarrow> Inl e
         | Inr fs1 \<Rightarrow>
             (case for_walk deflate fs1 folder_path (os_walk fs1 folder_path) [] of
                Inl e \<Rightarrow> Inl e
              | Inr zipf \<Rightarrow>
                  (case ZipFile_close zip_path zipf fs1 of
                     Inl e \<Rightarrow> Inl e
                   | Inr fs2 \<Rightarrow> Inr (zip_path, fs2))))"

subsection \<open>Unpacking\<close>

text \<open>
  \<open>ZipFile.extractall\<close> into an empty directory, as the files it leaves there (relative
  path and content). A member name is split at the separators, and empty components,
  \<open>.\<close> and \<open>..\<close> are dropped; a member whose name ends with the separator is a directory
  and leaves no file; a later member replaces an earlier one of the same path.
  \<open>inflate\<close> is the decompression.
\<close>

fun split_sep :: "string \<Rightarrow> string list" where
  "split_sep [] = [[]]"
| "split_sep (c # cs) =
     (if c = CHR ''/'' then [] # split_sep cs
      else case split_sep cs of [] \<Rightarrow> [[c]] | x # xs \<Rightarrow> (c # x) # xs)"

definition member_path :: "string \<Rightarrow> path" where
  "member_path name = filter (\<lambda>x. x \<noteq> [] \<and> x \<noteq> ''.'' \<and> x \<noteq> ''..'') (split_sep name)"

definition member_is_dir :: "string \<Rightarrow> bool" where
  "member_is_dir name \<longleftrightarrow> name \<noteq> [] \<and> last name = CHR ''/''"

definition extractall :: "(bytes \<Rightarrow> content) \<Rightarrow> zipfile \<Rightarrow> (path \<rightharpoonup> content)" where
  "extractall inflate zipf =
     foldl (\<lambda>m (name, data).
              if member_is_dir name then m else m(member_path name \<mapsto> inflate data))
       Map.empty zipf"

subsection \<open>An example\<close>

text \<open>
  A temporary directory with the frames of two extraction runs, and the filesystem after
  the archive has been opened, after a first call on \<open>/tmp/tmpab12\<close> and after a second
  call on \<open>/tmp/tmpcd34\<close>. The stand-in for the compression reverses the bytes of a file.
\<close>

definition rev_deflate :: "content \<Rightarrow> bytes" where
  "rev_deflate c = (case c of Raw b \<Rightarrow> rev b | Zip z \<Rightarrow> [])"

definition rev_inflate :: "bytes \<Rightarrow> content" where
  "rev_inflate z = Raw (rev z)"

definition frames_dir :: "(string \<times> node) list" where
  "frames_dir =
     [(''frame_0000.jpg'', File (Raw ''abc'')),
      (''sub'', Dir [(''x.txt'', File (Raw ''hello''))]),
      (''frame_0001.jpg'', File (Raw ''defg''))]"

definition other_dir :: "(string \<times> node) list" where
  "other_dir = [(''frame_0000.jpg'', File (Raw ''xyz''))]"

definition example_fs :: node where
  "example_fs = Dir [(''tmp'', Dir [(''tmpab12'', Dir frames_dir), (''tmpcd34'', Dir other_dir)])]"

definition example_opened :: node where
  "example_opened =
     Dir [(''tmp'', Dir [(''tmpab12'', Dir frames_dir), (''tmpcd34'', Dir other_dir),
                         (''extracted_frames.zip'', File (Raw []))])]"

definition first_archive :: zipfile where
  "first_archive =
     [(''frame_0000.jpg'', ''cba''), (''frame_0001.jpg'', ''gfed''), (''sub/x.txt'', ''olleh'')]"

definition example_fs1 :: node where
  "example_fs1 =
     Dir [(''tmp'', Dir [(''tmpab12'', Dir frames_dir), (''tmpcd34'', Dir other_dir),
                         (''extracted_frames.zip'', File (Zip first_archive))])]"

definition example_fs2 :: node where
  "example_fs2 =
     Dir [(''tmp'', Dir [(''tmpab12'', Dir frames_dir), (''tmpcd34'', Dir other_dir),
                         (''extracted_frames.zip'', File (Zip [(''frame_0000.jpg'', ''zyx'')]))])]"

definition example_zip_path :: path where
  "example_zip_path = [''tmp'', ''extracted_frames.zip'']"

section \<open>Properties of the frame sampler\<close>

subsection \<open>Rounding keeps the sign\<close>

lemma double_nonneg:
  assumes "0 \<le> x"
  shows "0 \<le> double x"
proof (cases "x = 0")
  case True
  then show ?thesis by (simp add: double_def)
next
  case False
  have s: "0 \<le> scale y k" if "0 \<le> y" for y k
    using that by (simp add: scale_def)
  have r: "0 \<le> round_half_even m" if "0 \<le> m" for m
    using that by (auto simp: round_half_even_def Let_def)
  from False assms have "sgn x = 1" by simp
  then show ?thesis using False assms by (simp add: double_def Let_def s r)
qed

lemma int_truediv_nonneg: "0 \<le> a \<Longrightarrow> 0 < b \<Longrightarrow> 0 \<le> int_truediv a b"
  by (simp add: int_truediv_def double_nonneg)

subsection \<open>Rounding moves a number by at most half a unit in the last place\<close>

text \<open>
  \<open>exponent\<close> brackets a positive number between two consecutive powers of two, so the
  nearest binary64 value is within \<open>2\<^sup>-\<^sup>5\<^sup>3\<close> of it in relative terms, or within
  \<open>2\<^sup>-\<^sup>1\<^sup>0\<^sup>7\<^sup>5\<close> (\<open>scale 1 (- 1075)\<close>) among the subnormal numbers.
\<close>

lemma bit_length_pos: "0 < n \<Longrightarrow> 0 < bit_length n"
  by (subst bit_length.simps) simp

lemma bit_length_bounds:
  "0 < n \<Longrightarrow> 2 ^ (bit_length n - 1) \<le> n \<and> n < 2 ^ bit_length n"
proof (induction n rule: bit_length.induct)
  case (1 n)
  have bl: "bit_length n = Suc (bit_length (n div 2))"
    using "1.prems" by (subst bit_length.simps) simp
  show ?case
  proof (cases "n div 2 = 0")
    case True
    then have "bit_length (n div 2) = 0" by (simp add: bit_length.simps [of 0])
    moreover from True "1.prems" have "n = 1" by (simp add: div_eq_0_iff)
    ultimately show ?thesis unfolding bl by simp
  next
    case False
    then have pos: "0 < n div 2" by simp
    from "1.IH" [OF _ pos] "1.prems"
    have IH: "2 ^ (bit_length (n div 2) - 1) \<le> n div 2" "n div 2 < 2 ^ bit_length (n div 2)"
      by simp_all
    have "2 ^ bit_length (n div 2) = (2::nat) * 2 ^ (bit_length (n div 2) - 1)"
      using bit_length_pos [OF pos] by (cases "bit_length (n div 2)") simp_all
    with IH show ?thesis unfolding bl by (simp; linarith)
  qed
qed

lemma scale_powi: "scale x k = x * 2 powi k"
proof (cases "0 \<le> k")
  case True
  then show ?thesis by (simp add: scale_def power_int_def)
next
  case False
  have "x / 2 ^ nat (- k) = x * inverse (2 ^ nat (- k))" by (rule divide_inverse)
  also have "inverse ((2::rat) ^ nat (- k)) = inverse 2 ^ nat (- k)" by (rule power_inverse [symmetric])
  finally show ?thesis using False by (simp only: scale_def power_int_def if_False)
qed

lemma exponent_bounds:
  assumes "0 < x"
  shows "scale 1 (exponent x) \<le> x \<and> x < scale 1 (exponent x + 1)"
proof (cases "1 \<le> x")
  case True
  define n where "n = nat \<lfloor>x\<rfloor>"
  have "1 \<le> \<lfloor>x\<rfloor>" using True by (simp add: le_floor_iff)
  then have n0: "0 < n" and nx: "(of_nat n :: rat) = of_int \<lfloor>x\<rfloor>" by (simp_all add: n_def)
  have n: "of_nat n \<le> x" "x < of_nat n + 1" unfolding nx by linarith+
  from bit_length_bounds [OF n0] have b: "2 ^ (bit_length n - 1) \<le> n" "n + 1 \<le> 2 ^ bit_length n"
    by simp_all
  have pos: "0 < bit_length n" using n0 by (rule bit_length_pos)
  have e: "exponent x = int (bit_length n) - 1" using True by (simp add: exponent_def n_def)
  have "(of_nat (2 ^ (bit_length n - 1)) :: rat) \<le> of_nat n"
    using b(1) by (simp only: of_nat_le_iff)
  then have "(2::rat) ^ (bit_length n - 1) \<le> of_nat n" by simp
  then have 1: "(2::rat) ^ (bit_length n - 1) \<le> x" using n(1) by (rule order_trans)
  have "(of_nat (n + 1) :: rat) \<le> of_nat (2 ^ bit_length n)"
    using b(2) by (simp only: of_nat_le_iff)
  then have "(of_nat n + 1 :: rat) \<le> 2 ^ bit_length n" by simp
  with n(2) have 2: "x < 2 ^ bit_length n" by (rule less_le_trans)
  have "scale 1 (exponent x) = 2 ^ (bit_length n - 1)"
    using pos by (simp add: e scale_def nat_diff_distrib)
  moreover have "scale 1 (exponent x + 1) = 2 ^ bit_length n"
    by (simp add: e scale_def)
  ultimately show ?thesis using 1 2 by simp
next
  case False
  define c where "c = \<lceil>1 / x\<rceil>"
  define n where "n = nat (c - 1)"
  have x1: "1 < 1 / x" using False assms by simp
  then have c2: "2 \<le> c" unfolding c_def by (simp add: le_ceiling_iff)
  have c: "of_int c - 1 < 1 / x" "1 / x \<le> of_int c" unfolding c_def by linarith+
  have n0: "0 < n" and nn: "(of_nat n :: rat) = of_int c - 1" using c2 by (simp_all add: n_def)
  from bit_length_bounds [OF n0] have b: "2 ^ (bit_length n - 1) \<le> n" "n + 1 \<le> 2 ^ bit_length n"
    by simp_all
  have pos: "0 < bit_length n" using n0 by (rule bit_length_pos)
  have e: "exponent x = - int (bit_length n)" using False by (simp add: exponent_def n_def c_def)
  have "(of_nat (2 ^ (bit_length n - 1)) :: rat) \<le> of_nat n"
    using b(1) by (simp only: of_nat_le_iff)
  then have "(2::rat) ^ (bit_length n - 1) \<le> of_nat n" by simp
  moreover have "(of_nat n :: rat) < 1 / x" using c(1) by (simp only: nn)
  ultimately have lo: "(2::rat) ^ (bit_length n - 1) < 1 / x" by (rule le_less_trans)
  have "(of_nat (n + 1) :: rat) \<le> of_nat (2 ^ bit_length n)"
    using b(2) by (simp only: of_nat_le_iff)
  then have "(of_nat n + 1 :: rat) \<le> 2 ^ bit_length n" by simp
  moreover have "1 / x \<le> of_nat n + 1" using c(2) by (simp add: nn)
  ultimately have hi: "1 / x \<le> 2 ^ bit_length n" by (rule order_trans [rotated])
  have 1: "1 / 2 ^ bit_length n \<le> x"
    using hi assms by (simp add: field_simps)
  have 2: "x < 1 / 2 ^ (bit_length n - 1)"
    using lo assms by (simp add: field_simps)
  have "scale 1 (exponent x) = 1 / 2 ^ bit_length n" using pos by (simp add: e scale_def)
  moreover have "scale 1 (exponent x + 1) = 1 / 2 ^ (bit_length n - 1)"
    using pos by (auto simp: e scale_def nat_diff_distrib)
  ultimately show ?thesis using 1 2 by simp
qed

lemma round_half_even_error: "\<bar>of_int (round_half_even m) - m\<bar> \<le> 1 / 2"
proof -
  define f r where "f = \<lfloor>m\<rfloor>" and "r = m - of_int \<lfloor>m\<rfloor>"
  have r: "0 \<le> r" "r < 1" unfolding r_def by linarith+
  have m: "m = of_int f + r" by (simp add: f_def r_def)
  have rhe: "round_half_even m =
      (if r < 1 / 2 then f else if 1 / 2 < r then f + 1 else if even f then f else f + 1)"
    by (simp add: round_half_even_def Let_def f_def r_def)
  have "round_half_even m = f \<or> (round_half_even m = f + 1 \<and> 1 / 2 \<le> r)"
    unfolding rhe by (cases "even f") auto
  then consider "round_half_even m = f" | "round_half_even m = f + 1" "1 / 2 \<le> r"
    by blast
  then show ?thesis
  proof cases
    case 1
    have "r \<le> 1 / 2"
    proof (rule ccontr)
      assume "\<not> r \<le> 1 / 2"
      then have "round_half_even m = f + 1" by (simp add: rhe)
      with 1 show False by simp
    qed
    moreover have "of_int (round_half_even m) - m = - r" unfolding 1 by (simp add: m)
    ultimately show ?thesis using r by simp
  next
    case 2
    have "of_int (round_half_even m) - m = 1 - r" unfolding 2(1) by (simp add: m)
    then show ?thesis using r 2(2) by simp
  qed
qed

lemma double_error:
  "\<bar>double x - x\<bar> \<le> max (\<bar>x\<bar> / 2 ^ 53) (scale 1 (- 1075))"
proof (cases "x = 0")
  case True
  then show ?thesis by (simp add: double_def)
next
  case False
  define e where "e = max (exponent \<bar>x\<bar>) (- 1022)"
  define y where "y = scale \<bar>x\<bar> (52 - e)"
  define m where "m = round_half_even y"
  define u :: rat where "u = 2 powi (e - 52)"
  have u: "0 < u" by (simp add: u_def)
  have d: "double x = sgn x * (of_int m * u)"
    using False by (simp add: double_def Let_def e_def y_def m_def scale_powi u_def)
  have "2 powi (52 - e) * u = (1::rat)"
    unfolding u_def by (simp add: power_int_diff)
  then have ax: "\<bar>x\<bar> = y * u"
    by (simp add: y_def scale_powi mult.assoc)
  have x: "x = sgn x * (y * u)" unfolding ax [symmetric] by (simp add: mult_sgn_abs)
  have "double x - x = sgn x * ((of_int m - y) * u)"
    by (subst x, subst d) (simp add: algebra_simps)
  then have "\<bar>double x - x\<bar> = \<bar>of_int m - y\<bar> * u"
    using False u by (simp add: abs_mult)
  also have "\<dots> \<le> (1 / 2) * u"
    using round_half_even_error [of y] u by (intro mult_right_mono) (simp_all add: m_def)
  also have "\<dots> = 2 powi e / 2 ^ 53"
    by (simp add: u_def power_int_diff)
  finally have main: "\<bar>double x - x\<bar> \<le> 2 powi e / 2 ^ 53" .
  show ?thesis
  proof (cases "- 1022 \<le> exponent \<bar>x\<bar>")
    case True
    then have "e = exponent \<bar>x\<bar>" by (simp add: e_def)
    moreover have "scale 1 (exponent \<bar>x\<bar>) \<le> \<bar>x\<bar>" using exponent_bounds [of "\<bar>x\<bar>"] False by simp
    ultimately have "2 powi e \<le> \<bar>x\<bar>" by (simp add: scale_powi)
    then have "2 powi e / 2 ^ 53 \<le> \<bar>x\<bar> / 2 ^ 53" by (rule divide_right_mono) simp
    with main have "\<bar>double x - x\<bar> \<le> \<bar>x\<bar> / 2 ^ 53" by (rule order_trans)
    then show ?thesis by (rule max.coboundedI1)
  next
    case False
    then have "e = - 1022" by (simp add: e_def)
    have "(2::rat) powi (- 1022 - 53) = 2 powi (- 1022) / 2 powi 53"
      by (rule power_int_diff) simp
    then have "(2::rat) powi e / 2 ^ 53 = scale 1 (- 1075)"
      unfolding \<open>e = - 1022\<close> scale_powi by simp
    with main have "\<bar>double x - x\<bar> \<le> scale 1 (- 1075)" by (simp only:)
    then show ?thesis by (rule max.coboundedI2)
  qed
qed

subsection \<open>Unfolding the loop\<close>

lemma frames_loop_Nil:
  "stream (cap s) = [] \<Longrightarrow> frames_loop S T d s = (None, s)"
  by (simp add: frames_loop.simps read_def)

lemma frames_loop_Cons:
  "stream (cap s) = f # fs \<Longrightarrow>
   frames_loop S T d s =
     (case loop_body S T d f (s\<lparr>cap := (cap s)\<lparr>stream := fs\<rparr>\<rparr>) of
        (Some e, s') \<Rightarrow> (Some e, s')
      | (None, s') \<Rightarrow> frames_loop S T d s')"
  by (subst frames_loop.simps) (simp add: read_def)

subsection \<open>The loop invariant\<close>

lemma sampled_Suc:
  "sampled S (Suc c) = sampled S c @ (if int c mod S = 0 then [c] else [])"
  by (simp add: sampled_def)

lemma images_Suc:
  "images S d fs (Suc c) =
     images S d fs c @
       (if int c mod S = 0
        then [(os_path_join d (frame_filename (int (length (sampled S c)))), fs ! c)]
        else [])"
  by (simp add: images_def sampled_Suc enumerate_append_eq)

lemma shown_Suc:
  "shown T (Suc c) = shown T c @ [min (int_truediv (int (Suc c)) T) 1]"
  by (simp add: shown_def)

lemma loop_body_ok:
  assumes "S \<noteq> 0" "0 < T" "0 \<le> frame_count s"
  shows "loop_body S T d f s =
     (None,
      (if frame_count s mod S = 0
       then s\<lparr>written := written s @ [(os_path_join d (frame_filename (saved_count s)), f)],
              saved_count := saved_count s + 1\<rparr>
       else s)
      \<lparr>frame_count := frame_count s + 1,
        progress_bar := progress_bar s @ [min (int_truediv (frame_count s + 1) T) 1]\<rparr>)"
proof -
  have "0 \<le> int_truediv (frame_count s + 1) T"
    using assms by (simp add: int_truediv_nonneg)
  then have "0 \<le> min (int_truediv (frame_count s + 1) T) 1"
    "min (int_truediv (frame_count s + 1) T) 1 \<le> 1"
    by simp_all
  then show ?thesis
    using assms by (simp add: loop_body_def st_progress_def Let_def)
qed

lemma frames_loop_invariant:
  assumes "S \<noteq> 0" "0 < T"
    and "j \<le> length fs0" "stream (cap s) = drop j fs0"
    and "frame_count s = int j" "saved_count s = int (length (sampled S j))"
    and "written s = images S d fs0 j" "progress_bar s = shown T j"
  shows "frames_loop S T d s =
     (None, s\<lparr>cap := (cap s)\<lparr>stream := []\<rparr>,
              frame_count := int (length fs0),
              saved_count := int (length (sampled S (length fs0))),
              written := images S d fs0 (length fs0),
              progress_bar := shown T (length fs0)\<rparr>)"
  using assms(3-)
proof (induction "length fs0 - j" arbitrary: j s)
  case 0
  then have "j = length fs0" by simp
  with 0 show ?case by (simp add: frames_loop_Nil)
next
  case (Suc n)
  then have lt: "j < length fs0" by simp
  then have str: "stream (cap s) = fs0 ! j # drop (Suc j) fs0"
    using Suc.prems by (simp add: Cons_nth_drop_Suc)
  let ?s0 = "s\<lparr>cap := (cap s)\<lparr>stream := drop (Suc j) fs0\<rparr>\<rparr>"
  obtain s' where body: "loop_body S T d (fs0 ! j) ?s0 = (None, s')"
    and s': "s' = (if frame_count ?s0 mod S = 0
       then ?s0\<lparr>written := written ?s0 @ [(os_path_join d (frame_filename (saved_count ?s0)), fs0 ! j)],
              saved_count := saved_count ?s0 + 1\<rparr>
       else ?s0)
      \<lparr>frame_count := frame_count ?s0 + 1,
        progress_bar := progress_bar ?s0 @ [min (int_truediv (frame_count ?s0 + 1) T) 1]\<rparr>"
    using loop_body_ok [OF assms(1,2), of ?s0 d "fs0 ! j"] Suc.prems by simp
  have step: "frames_loop S T d s = frames_loop S T d s'"
    by (simp add: frames_loop_Cons [OF str] body)
  have "frames_loop S T d s' =
     (None, s'\<lparr>cap := (cap s')\<lparr>stream := []\<rparr>,
              frame_count := int (length fs0),
              saved_count := int (length (sampled S (length fs0))),
              written := images S d fs0 (length fs0),
              progress_bar := shown T (length fs0)\<rparr>)"
  proof (rule Suc.hyps(1))
    show "n = length fs0 - Suc j" using Suc.hyps(2) by simp
    show "Suc j \<le> length fs0" using lt by simp
    show "stream (cap s') = drop (Suc j) fs0" by (simp add: s')
    show "frame_count s' = int (Suc j)" using Suc.prems by (simp add: s')
    show "saved_count s' = int (length (sampled S (Suc j)))"
      using Suc.prems by (simp add: s' sampled_Suc)
    show "written s' = images S d fs0 (Suc j)"
      using Suc.prems by (simp add: s' images_Suc)
    show "progress_bar s' = shown T (Suc j)"
      using Suc.prems by (simp add: s' shown_Suc add.commute)
  qed
  also have "\<dots> = (None, s\<lparr>cap := (cap s)\<lparr>stream := []\<rparr>,
              frame_count := int (length fs0),
              saved_count := int (length (sampled S (length fs0))),
              written := images S d fs0 (length fs0),
              progress_bar := shown T (length fs0)\<rparr>)"
    by (simp add: s')
  finally show ?case using step by simp
qed

subsection \<open>The loop, whatever the progress bar accepts\<close>

text \<open>
  With a frame step other than 0 the loop keeps its invariant up to the frame at which it
  stops, whether it stops at the end of the source or by an exception of the progress
  computation.
\<close>

lemma st_progress_effect: "\<exists>e pb. st_progress v s = (e, s\<lparr>progress_bar := pb\<rparr>)"
proof (cases "(0 \<le> v \<and> v \<le> 1) \<or> isclose v 0 \<or> isclose v 1")
  case True
  then have "st_progress v s = (None, s\<lparr>progress_bar := progress_bar s @ [v]\<rparr>)"
    by (simp add: st_progress_def)
  then show ?thesis by blast
next
  case False
  then have "st_progress v s = (Some StreamlitAPIException, s\<lparr>progress_bar := progress_bar s\<rparr>)"
    by (simp add: st_progress_def)
  then show ?thesis by blast
qed

lemma loop_body_effect:
  assumes "S \<noteq> 0"
  shows "\<exists>e pb. loop_body S T d f s =
     (e, (if frame_count s mod S = 0
          then s\<lparr>written := written s @ [(os_path_join d (frame_filename (saved_count s)), f)],
                 saved_count := saved_count s + 1\<rparr>
          else s)
         \<lparr>frame_count := frame_count s + 1, progress_bar := pb\<rparr>)"
proof -
  define s2 where "s2 = (if frame_count s mod S = 0
          then s\<lparr>written := written s @ [(os_path_join d (frame_filename (saved_count s)), f)],
                 saved_count := saved_count s + 1\<rparr>
          else s)
         \<lparr>frame_count := frame_count s + 1\<rparr>"
  have body: "loop_body S T d f s =
      (if T = 0 then (Some ZeroDivisionError, s2)
       else st_progress (min (int_truediv (frame_count s2) T) 1) s2)"
    using assms by (simp add: loop_body_def Let_def s2_def)
  have "\<exists>e pb. loop_body S T d f s = (e, s2\<lparr>progress_bar := pb\<rparr>)"
  proof (cases "T = 0")
    case True
    have "loop_body S T d f s = (Some ZeroDivisionError, s2\<lparr>progress_bar := progress_bar s2\<rparr>)"
      unfolding body using True by simp
    then show ?thesis by blast
  next
    case False
    then show ?thesis
      unfolding body
      using st_progress_effect [of "min (int_truediv (frame_count s2) T) 1" s2]
      by simp
  qed
  then show ?thesis by (simp add: s2_def)
qed

lemma frames_loop_general:
  assumes "S \<noteq> 0"
    and "j \<le> length fs0" "stream (cap s) = drop j fs0"
    and "frame_count s = int j" "saved_count s = int (length (sampled S j))"
    and "written s = images S d fs0 j"
  shows "\<exists>e c s'. frames_loop S T d s = (e, s') \<and> j \<le> c \<and> c \<le> length fs0
       \<and> stream (cap s') = drop c fs0 \<and> frame_count s' = int c
       \<and> saved_count s' = int (length (sampled S c)) \<and> written s' = images S d fs0 c
       \<and> (e = None \<longrightarrow> c = length fs0)"
  using assms(2-)
proof (induction "length fs0 - j" arbitrary: j s)
  case 0
  then have "j = length fs0" by simp
  with 0 show ?case by (auto simp: frames_loop_Nil)
next
  case (Suc n)
  then have lt: "j < length fs0" by simp
  then have str: "stream (cap s) = fs0 ! j # drop (Suc j) fs0"
    using Suc.prems by (simp add: Cons_nth_drop_Suc)
  let ?s0 = "s\<lparr>cap := (cap s)\<lparr>stream := drop (Suc j) fs0\<rparr>\<rparr>"
  from loop_body_effect [OF assms(1), of T d "fs0 ! j" ?s0]
  obtain e pb s1 where body: "loop_body S T d (fs0 ! j) ?s0 = (e, s1)"
    and s1: "s1 = (if frame_count ?s0 mod S = 0
          then ?s0\<lparr>written := written ?s0 @
                    [(os_path_join d (frame_filename (saved_count ?s0)), fs0 ! j)],
                 saved_count := saved_count ?s0 + 1\<rparr>
          else ?s0)
         \<lparr>frame_count := frame_count ?s0 + 1, progress_bar := pb\<rparr>"
    by blast
  have inv: "Suc j \<le> length fs0" "stream (cap s1) = drop (Suc j) fs0"
    "frame_count s1 = int (Suc j)" "saved_count s1 = int (length (sampled S (Suc j)))"
    "written s1 = images S d fs0 (Suc j)"
    using lt Suc.prems by (simp_all add: s1 sampled_Suc images_Suc)
  show ?case
  proof (cases e)
    case None
    then have "frames_loop S T d s = frames_loop S T d s1"
      by (simp add: frames_loop_Cons [OF str] body)
    moreover have "n = length fs0 - Suc j" using Suc.hyps(2) by simp
    from Suc.hyps(1) [OF this inv]
    obtain e' c s' where "frames_loop S T d s1 = (e', s')" "Suc j \<le> c" "c \<le> length fs0"
      "stream (cap s') = drop c fs0" "frame_count s' = int c"
      "saved_count s' = int (length (sampled S c))" "written s' = images S d fs0 c"
      "e' = None \<longrightarrow> c = length fs0"
      by blast
    ultimately show ?thesis by (intro exI [of _ e'] exI [of _ c] exI [of _ s']) simp
  next
    case (Some err)
    then have "frames_loop S T d s = (Some err, s1)"
      by (simp add: frames_loop_Cons [OF str] body)
    with inv show ?thesis
      by (intro exI [of _ "Some err"] exI [of _ "Suc j"] exI [of _ s1]) simp
  qed
qed

subsection \<open>The output directory only moves the files\<close>

lemma st_progress_relocate:
  "st_progress v (relocate d' s) = (case st_progress v s of (e, s1) \<Rightarrow> (e, relocate d' s1))"
  by (simp add: st_progress_def relocate_def)

lemma loop_body_relocate:
  "loop_body S T d' f (relocate d' s) =
     (case loop_body S T d f s of (e, s1) \<Rightarrow> (e, relocate d' s1))"
proof -
  define s2 where "s2 = (if frame_count s mod S = 0
          then s\<lparr>written := written s @ [(os_path_join d (frame_filename (saved_count s)), f)],
                 saved_count := saved_count s + 1\<rparr>
          else s)
         \<lparr>frame_count := frame_count s + 1\<rparr>"
  have 1: "loop_body S T d f s =
      (if S = 0 then (Some ZeroDivisionError, s)
       else if T = 0 then (Some ZeroDivisionError, s2)
       else st_progress (min (int_truediv (frame_count s2) T) 1) s2)"
    by (simp add: loop_body_def Let_def s2_def)
  define s2' where "s2' = (if frame_count (relocate d' s) mod S = 0
          then (relocate d' s)\<lparr>written := written (relocate d' s) @
                    [(os_path_join d' (frame_filename (saved_count (relocate d' s))), f)],
                 saved_count := saved_count (relocate d' s) + 1\<rparr>
          else relocate d' s)
         \<lparr>frame_count := frame_count (relocate d' s) + 1\<rparr>"
  have eq: "s2' = relocate d' s2"
    by (simp add: s2'_def s2_def relocate_def os_path_join_def)
  have fc: "frame_count (relocate d' s2) = frame_count s2" by (simp add: relocate_def)
  have "loop_body S T d' f (relocate d' s) =
      (if S = 0 then (Some ZeroDivisionError, relocate d' s)
       else if T = 0 then (Some ZeroDivisionError, s2')
       else st_progress (min (int_truediv (frame_count s2') T) 1) s2')"
    by (simp add: loop_body_def Let_def s2'_def)
  then have 2: "loop_body S T d' f (relocate d' s) =
      (if S = 0 then (Some ZeroDivisionError, relocate d' s)
       else if T = 0 then (Some ZeroDivisionError, relocate d' s2)
       else st_progress (min (int_truediv (frame_count s2) T) 1) (relocate d' s2))"
    by (simp only: eq fc)
  show ?thesis unfolding 1 2 by (simp add: st_progress_relocate)
qed

lemma frames_loop_relocate:
  "frames_loop S T d' (relocate d' s) =
     (case frames_loop S T d s of (e, s') \<Rightarrow> (e, relocate d' s'))"
proof (induction "length (stream (cap s))" arbitrary: s)
  case 0
  then have "stream (cap s) = []" by simp
  moreover then have "stream (cap (relocate d' s)) = []" by (simp add: relocate_def)
  ultimately show ?case by (simp add: frames_loop_Nil)
next
  case (Suc n)
  then obtain f fs where str: "stream (cap s) = f # fs" by (cases "stream (cap s)") auto
  then have str': "stream (cap (relocate d' s)) = f # fs" by (simp add: relocate_def)
  let ?s0 = "s\<lparr>cap := (cap s)\<lparr>stream := fs\<rparr>\<rparr>"
  have r: "(relocate d' s)\<lparr>cap := (cap (relocate d' s))\<lparr>stream := fs\<rparr>\<rparr> = relocate d' ?s0"
    by (simp add: relocate_def)
  obtain e s1 where body: "loop_body S T d f ?s0 = (e, s1)" by (cases "loop_body S T d f ?s0")
  then have body': "loop_body S T d' f (relocate d' ?s0) = (e, relocate d' s1)"
    by (simp add: loop_body_relocate [of S T d' f ?s0 d])
  show ?case
  proof (cases e)
    case None
    have "cap s1 = cap ?s0"
      using body by (auto simp: loop_body_def st_progress_def Let_def split: if_splits)
    then have "n = length (stream (cap s1))" using Suc.hyps(2) str by simp
    from Suc.hyps(1) [OF this] show ?thesis
      using None by (simp add: frames_loop_Cons [OF str] frames_loop_Cons [OF str'] r body body')
  next
    case (Some err)
    then show ?thesis
      by (simp add: frames_loop_Cons [OF str] frames_loop_Cons [OF str'] r body body')
  qed
qed

subsection \<open>Counting the selected indices\<close>

lemma div_shift:
  fixes S :: int
  assumes "1 \<le> S"
  shows "(int (Suc c) + S - 1) div S = (int c + S - 1) div S + (if int c mod S = 0 then 1 else 0)"
proof -
  define q r where "q = int c div S" and "r = int c mod S"
  have c: "int c = r + q * S" and r: "0 \<le> r" "r < S"
    using assms by (simp_all add: q_def r_def)
  have S0: "S \<noteq> 0" using assms by simp
  have "int c + S - 1 = (r + S - 1) + q * S" by (simp add: c)
  then have "(int c + S - 1) div S = ((r + S - 1) + q * S) div S" by (simp only:)
  then have "(int c + S - 1) div S = q + (r + S - 1) div S"
    by (simp only: div_mult_self1 [OF S0])
  moreover have "(r + S - 1) div S = (if r = 0 then 0 else 1)"
  proof (cases "r = 0")
    case True
    then show ?thesis using assms by (simp add: div_pos_pos_trivial)
  next
    case False
    then have "r + S - 1 = (r - 1) + 1 * S" "0 \<le> r - 1" "r - 1 < S" using r by simp_all
    then have "(r + S - 1) div S = ((r - 1) + 1 * S) div S" by (simp only:)
    then have "(r + S - 1) div S = 1 + (r - 1) div S"
      by (simp only: div_mult_self1 [OF S0])
    then show ?thesis using False \<open>0 \<le> r - 1\<close> \<open>r - 1 < S\<close> by (simp add: div_pos_pos_trivial)
  qed
  moreover have "int (Suc c) + S - 1 = r + (q + 1) * S" by (simp add: c algebra_simps)
  then have "(int (Suc c) + S - 1) div S = (r + (q + 1) * S) div S" by (simp only:)
  then have "(int (Suc c) + S - 1) div S = (q + 1) + r div S"
    by (simp only: div_mult_self1 [OF S0])
  then have "(int (Suc c) + S - 1) div S = q + 1" using r by (simp add: div_pos_pos_trivial)
  ultimately show ?thesis by (simp add: r_def)
qed

lemma length_sampled:
  assumes "1 \<le> S"
  shows "int (length (sampled S c)) = (int c + S - 1) div S"
proof (induction c)
  case 0
  from assms show ?case by (simp add: sampled_def div_pos_pos_trivial)
next
  case (Suc c)
  show ?case using Suc div_shift [OF assms, of c] by (simp add: sampled_Suc)
qed

lemma ceiling_frames:
  assumes "1 \<le> S"
  shows "\<lceil>(of_nat c :: rat) / of_int S\<rceil> = (int c + S - 1) div S"
proof -
  define a z where "a = int c + S - 1" and "z = (int c + S - 1) div S"
  have "a = z * S + a mod S" "0 \<le> a mod S" "a mod S < S"
    using assms by (simp_all add: a_def z_def)
  then have lo: "z * S - S < int c" and hi: "int c \<le> z * S"
    by (simp_all add: a_def)
  have S: "(0::rat) < of_int S" using assms by simp
  have "(of_int (z * S - S) :: rat) < of_int (int c)" using lo by (simp only: of_int_less_iff)
  then have "(of_int z - 1) * (of_int S :: rat) < of_nat c" by (simp add: algebra_simps)
  then have 1: "of_int z - 1 < (of_nat c :: rat) / of_int S"
    using S by (simp add: pos_less_divide_eq)
  have "(of_int (int c) :: rat) \<le> of_int (z * S)" using hi by (simp only: of_int_le_iff)
  then have "(of_nat c :: rat) \<le> of_int z * of_int S" by simp
  then have 2: "(of_nat c :: rat) / of_int S \<le> of_int z"
    using S by (simp add: pos_divide_le_eq)
  show ?thesis unfolding z_def [symmetric] using 1 2 by (rule ceiling_unique)
qed

subsection \<open>How a run ends\<close>

text \<open>
  No frame at all; a frame step of 0 and a first frame; a declared frame count of 0 and a
  first frame; and, with a positive declared frame count, the run that reads the source
  to its end. With a negative declared frame count the run stops at the first frame whose
  progress value the bar refuses.
\<close>

lemma extract_empty:
  assumes "stream v = []"
  shows "extract_frames_from_video v t d =
     (Inr (0, d), \<lparr>cap = v, frame_count = 0, saved_count = 0, written = [], progress_bar = [0]\<rparr>)"
  using assms by (simp add: extract_frames_from_video_def frames_loop_Nil)

lemma extract_step_zero:
  assumes "frame_interval v t = 0" "stream v = f # fs"
  shows "extract_frames_from_video v t d =
     (Inl ZeroDivisionError,
      \<lparr>cap = v\<lparr>stream := fs\<rparr>, frame_count = 0, saved_count = 0, written = [],
       progress_bar = [0]\<rparr>)"
  using assms by (simp add: extract_frames_from_video_def frames_loop_Cons loop_body_def)

lemma extract_total_zero:
  assumes "frame_interval v t \<noteq> 0" "total_frames v = 0" "stream v = f # fs"
  shows "extract_frames_from_video v t d =
     (Inl ZeroDivisionError,
      \<lparr>cap = v\<lparr>stream := fs\<rparr>, frame_count = 1, saved_count = 1,
       written = [(os_path_join d (frame_filename 0), f)], progress_bar = [0]\<rparr>)"
  using assms
  by (simp add: extract_frames_from_video_def frames_loop_Cons loop_body_def Let_def)

lemma extract_normal:
  assumes "frame_interval v t \<noteq> 0" "0 < total_frames v"
  shows "extract_frames_from_video v t d =
     (Inr (int (length (sampled (frame_interval v t) (length (stream v)))), d),
      \<lparr>cap = v\<lparr>stream := []\<rparr>, frame_count = int (length (stream v)),
       saved_count = int (length (sampled (frame_interval v t) (length (stream v)))),
       written = images (frame_interval v t) d (stream v) (length (stream v)),
       progress_bar = shown (total_frames v) (length (stream v))\<rparr>)"
proof -
  let ?s0 = "\<lparr>cap = v, frame_count = 0, saved_count = 0, written = [], progress_bar = [0]\<rparr>"
  have "frames_loop (frame_interval v t) (total_frames v) d ?s0 =
      (None, ?s0\<lparr>cap := (cap ?s0)\<lparr>stream := []\<rparr>,
              frame_count := int (length (stream v)),
              saved_count := int (length (sampled (frame_interval v t) (length (stream v)))),
              written := images (frame_interval v t) d (stream v) (length (stream v)),
              progress_bar := shown (total_frames v) (length (stream v))\<rparr>)"
    by (rule frames_loop_invariant [OF assms, where j = 0])
       (simp_all add: sampled_def images_def shown_def)
  then show ?thesis by (simp add: extract_frames_from_video_def)
qed

subsection \<open>File names\<close>

lemma str_nat_small: "n < 10 \<Longrightarrow> str_nat n = [digit_char n]"
  by (subst str_nat.simps) simp

lemma str_nat_large: "10 \<le> n \<Longrightarrow> str_nat n = str_nat (n div 10) @ [digit_char (n mod 10)]"
  by (subst str_nat.simps) simp

lemma length_str_nat: "n < 10 ^ Suc k \<Longrightarrow> length (str_nat n) \<le> Suc k"
proof (induction k arbitrary: n)
  case 0
  then show ?case by (simp add: str_nat_small)
next
  case (Suc k)
  show ?case
  proof (cases "n < 10")
    case True
    then show ?thesis by (simp add: str_nat_small)
  next
    case False
    have "n div 10 < 10 ^ Suc k" using Suc.prems by (simp add: less_mult_imp_div_less)
    then have "length (str_nat (n div 10)) \<le> Suc k" by (rule Suc.IH)
    then show ?thesis using False by (simp add: str_nat_large)
  qed
qed

lemma length_format_04d:
  assumes "0 \<le> k" "k < 10000"
  shows "length (format_04d k) = 4"
proof -
  have "nat k < 10 ^ Suc 3" using assms by simp
  then have "length (str_nat (nat k)) \<le> Suc 3" by (rule length_str_nat)
  then show ?thesis using assms by (simp add: format_04d_def zfill_def)
qed

lemma of_char_digit_char: "d < 10 \<Longrightarrow> of_char (digit_char d) = (48 + d :: nat)"
  by (auto simp: digit_char_def less_Suc_eq numeral_eq_Suc nth_Cons')

lemma digits_value_str_nat: "digits_value (str_nat n) = n"
proof (induction n rule: str_nat.induct)
  case (1 n)
  show ?case
  proof (cases "n < 10")
    case True
    then show ?thesis by (simp add: str_nat_small digits_value_def of_char_digit_char)
  next
    case False
    then have "digits_value (str_nat (n div 10)) = n div 10" using 1 by simp
    then show ?thesis using False
      by (simp add: str_nat_large digits_value_def of_char_digit_char)
  qed
qed

lemma digits_value_zfill: "digits_value (zfill w s) = digits_value s"
proof -
  have "foldl (\<lambda>a c. 10 * a + (of_char c - 48)) (0::nat) (replicate m (CHR ''0'')) = 0" for m
    by (induction m) simp_all
  then show ?thesis by (simp add: digits_value_def zfill_def)
qed

lemma digits_value_format_04d: "0 \<le> k \<Longrightarrow> digits_value (format_04d k) = nat k"
  by (simp add: format_04d_def digits_value_zfill digits_value_str_nat)

lemma frame_filename_inj:
  assumes "0 \<le> a" "0 \<le> b" "frame_filename a = frame_filename b"
  shows "a = b"
proof -
  from assms have "zfill 4 (str_nat (nat a)) = zfill 4 (str_nat (nat b))"
    by (simp add: frame_filename_def format_04d_def)
  then have "digits_value (zfill 4 (str_nat (nat a))) = digits_value (zfill 4 (str_nat (nat b)))"
    by simp
  then have "nat a = nat b" by (simp only: digits_value_zfill digits_value_str_nat)
  then show ?thesis using assms by simp
qed

subsection \<open>Positions of the selected indices\<close>

lemma nth_ge_index:
  fixes xs :: "nat list"
  assumes "sorted_wrt (<) xs"
  shows "k < length xs \<Longrightarrow> k \<le> xs ! k"
proof (induction k)
  case 0
  show ?case by simp
next
  case (Suc k)
  then have "k \<le> xs ! k" by simp
  moreover have "xs ! k < xs ! Suc k"
    using assms Suc.prems by (simp add: sorted_wrt_nth_less)
  ultimately show ?case by simp
qed

lemma sorted_sampled: "sorted_wrt (<) (sampled S c)"
  unfolding sampled_def by (rule sorted_wrt_filter) simp

lemma sampled_index:
  assumes "(k, i) \<in> set (enumerate 0 (sampled S c))"
  shows "k \<le> i \<and> i < c \<and> int i mod S = 0"
proof -
  from assms have k: "k < length (sampled S c)" and i: "i = sampled S c ! k"
    by (auto simp: in_set_enumerate_eq)
  then have "i \<in> set (sampled S c)" by simp
  then have "i < c \<and> int i mod S = 0" by (simp add: sampled_def)
  moreover have "k \<le> i" using nth_ge_index [OF sorted_sampled k] i by simp
  ultimately show ?thesis by simp
qed

lemma sampled_multiples:
  assumes "1 \<le> S"
  shows "sampled S c = map (\<lambda>k. k * nat S) [0..<nat ((int c + S - 1) div S)]"
proof (induction c)
  case 0
  from assms show ?case by (simp add: sampled_def div_pos_pos_trivial)
next
  case (Suc c)
  let ?m = "(int c + S - 1) div S"
  have m0: "0 \<le> ?m" using assms by (simp add: pos_imp_zdiv_nonneg_iff)
  show ?case
  proof (cases "int c mod S = 0")
    case True
    then obtain q where q: "int c = q * S" by (metis mod_eq_0_iff_dvd dvd_def mult.commute)
    have S0: "S \<noteq> 0" using assms by simp
    have "int c + S - 1 = (S - 1) + q * S" by (simp add: q)
    then have "?m = ((S - 1) + q * S) div S" by (simp only:)
    then have "?m = q + (S - 1) div S" by (simp only: div_mult_self1 [OF S0])
    then have "?m = q" using assms by (simp add: div_pos_pos_trivial)
    then have "int (nat ?m * nat S) = int c" using m0 assms by (simp add: q)
    then have c: "nat ?m * nat S = c" by (simp only: int_int_eq)
    have "nat ((int (Suc c) + S - 1) div S) = Suc (nat ?m)"
      using div_shift [OF assms, of c] True m0 by simp
    then show ?thesis using Suc True c by (simp add: sampled_Suc)
  next
    case False
    then have "nat ((int (Suc c) + S - 1) div S) = nat ?m"
      using div_shift [OF assms, of c] by simp
    then show ?thesis using Suc False by (simp add: sampled_Suc)
  qed
qed

lemma sampled_enumerate_multiple:
  assumes "1 \<le> S" "(k, i) \<in> set (enumerate 0 (sampled S c))"
  shows "i = k * nat S"
proof -
  from assms(2) have k: "k < length (sampled S c)" and i: "i = sampled S c ! k"
    by (auto simp: in_set_enumerate_eq)
  then show ?thesis by (simp add: sampled_multiples [OF assms(1)])
qed

lemma extract_consumed:
  assumes "frame_interval v t \<noteq> 0"
    and "extract_frames_from_video v t d = (out, s)"
    and "c = length (stream v) - length (stream (cap s))"
  shows "frame_count s = int c \<and> saved_count s = int (length (sampled (frame_interval v t) c))
       \<and> written s = images (frame_interval v t) d (stream v) c"
proof -
  let ?s0 = "\<lparr>cap = v, frame_count = 0, saved_count = 0, written = [], progress_bar = [0]\<rparr>"
  have "\<exists>e c' s'. frames_loop (frame_interval v t) (total_frames v) d ?s0 = (e, s')
       \<and> 0 \<le> c' \<and> c' \<le> length (stream v)
       \<and> stream (cap s') = drop c' (stream v) \<and> frame_count s' = int c'
       \<and> saved_count s' = int (length (sampled (frame_interval v t) c'))
       \<and> written s' = images (frame_interval v t) d (stream v) c'
       \<and> (e = None \<longrightarrow> c' = length (stream v))"
    by (rule frames_loop_general [OF assms(1)]) (simp_all add: sampled_def images_def)
  then obtain e c' s' where run: "frames_loop (frame_interval v t) (total_frames v) d ?s0 = (e, s')"
    and c': "c' \<le> length (stream v)" "stream (cap s') = drop c' (stream v)"
    and inv: "frame_count s' = int c'"
      "saved_count s' = int (length (sampled (frame_interval v t) c'))"
      "written s' = images (frame_interval v t) d (stream v) c'"
    by blast
  from run assms(2) have "s = s'"
    by (auto simp: extract_frames_from_video_def split: option.splits)
  with c' assms(3) have "c = c'" by simp
  with inv \<open>s = s'\<close> show ?thesis by simp
qed

subsection \<open>The files of a run, by name\<close>

lemma images_named: "images S d fs c = map (\<lambda>(n, f). (os_path_join d n, f)) (named S fs c)"
  by (simp add: images_def named_def case_prod_unfold comp_def)

lemma distinct_named: "distinct (map fst (named S fs c))"
proof -
  have "map fst (named S fs c) = map (\<lambda>k. frame_filename (int k)) [0..<length (sampled S c)]"
  proof -
    have "map fst (named S fs c) =
            map ((\<lambda>k. frame_filename (int k)) \<circ> fst) (enumerate 0 (sampled S c))"
      by (simp add: named_def case_prod_unfold comp_def)
    also have "\<dots> = map (\<lambda>k. frame_filename (int k)) (map fst (enumerate 0 (sampled S c)))"
      by (simp only: map_map)
    finally show ?thesis by simp
  qed
  moreover have "inj_on (\<lambda>k. frame_filename (int k)) (set [0..<length (sampled S c)])"
    by (rule inj_onI) (auto dest: frame_filename_inj [rotated 2])
  ultimately show ?thesis by (simp add: distinct_map)
qed

subsection \<open>C1: the number of saved frames\<close>

text \<open>
  When the declared frame count is positive and the frame step \<open>S\<close> is at least 1, a
  source of \<open>N\<close> frames yields \<open>saved_count = ceil(N / S)\<close>.
\<close>

lemma saved_count_ceiling:
  assumes "1 \<le> frame_interval v t" "0 < total_frames v"
  shows "fst (extract_frames_from_video v t d) =
           Inr (\<lceil>(of_nat (length (stream v)) :: rat) / of_int (frame_interval v t)\<rceil>, d)"
proof -
  have "frame_interval v t \<noteq> 0" using assms(1) by simp
  from extract_normal [OF this assms(2), of d] show ?thesis
    by (simp add: length_sampled [OF assms(1)] ceiling_frames [OF assms(1)])
qed

text \<open>
  C1. The claim: for every video source with \<open>N \<ge> 1\<close> consumable frames and computed frame
  step \<open>S \<ge> 1\<close>, the function returns \<open>savedCount = ceil(N / S)\<close>. The source below has
  three frames and frame step 1, and its container declares 0 frames: the division
  \<open>frame_count / total_frames\<close> of line 42 raises \<open>ZeroDivisionError\<close> after the first
  frame, so nothing is returned where the claim expects 3.
\<close>

theorem saved_count_declared_total_zero:
  "frame_interval \<lparr>CAP_PROP_FPS = 1, CAP_PROP_FRAME_COUNT = 0, stream = [''f0'', ''f1'', ''f2'']\<rparr> 1 = 1
   \<and> fst (extract_frames_from_video
            \<lparr>CAP_PROP_FPS = 1, CAP_PROP_FRAME_COUNT = 0, stream = [''f0'', ''f1'', ''f2'']\<rparr> 1
            [''out''])
       = Inl ZeroDivisionError"
  by code_simp

subsection \<open>The frame step is taken from the rounded product\<close>

text \<open>
  The product \<open>fps * interval_seconds\<close> of line 19 is a floating-point product: it is
  rounded before \<open>int(...)\<close> truncates it, and the rounding can reach an integer that the
  exact product misses. Three frame rates as OpenCV may report them:
  \<open>0.3333333333333333\<close> (\<open>6004799503160661 / 2\<^sup>5\<^sup>4\<close>) and \<open>41.666666666666664\<close>
  (\<open>5864062014805333 / 2\<^sup>4\<^sup>7\<close>) at an interval of 3 seconds, where the exact products lie
  just below 1 and 125, and \<open>10.0\<close> at an interval of \<open>0.3\<close>
  (\<open>5404319552844595 / 2\<^sup>5\<^sup>4\<close>), where the exact product lies just below 3.
\<close>

lemma frame_interval_one_third:
  "frame_interval \<lparr>CAP_PROP_FPS = 6004799503160661 / 18014398509481984,
                    CAP_PROP_FRAME_COUNT = 60, stream = [''f0'']\<rparr> 3 = 1
   \<and> \<lfloor>6004799503160661 / 18014398509481984 * 3 :: rat\<rfloor> = 0"
  by code_simp

lemma frame_interval_125:
  "frame_interval \<lparr>CAP_PROP_FPS = 5864062014805333 / 140737488355328,
                    CAP_PROP_FRAME_COUNT = 60, stream = [''f0'']\<rparr> 3 = 125
   \<and> \<lfloor>5864062014805333 / 140737488355328 * 3 :: rat\<rfloor> = 124"
  by code_simp

lemma frame_interval_three_tenths:
  "frame_interval \<lparr>CAP_PROP_FPS = 10, CAP_PROP_FRAME_COUNT = 60, stream = [''f0'']\<rparr>
     (5404319552844595 / 18014398509481984) = 3
   \<and> \<lfloor>10 * (5404319552844595 / 18014398509481984) :: rat\<rfloor> = 2"
  by code_simp

subsection \<open>C2: the frame step\<close>

text \<open>
  C2, as stated: the frame step is \<open>round(fps \<times> t)\<close>. At 29.875 frames per second and an
  interval of 2 seconds the product is 59.75, a binary64 value, so that the multiplication
  is exact: the code's \<open>int(...)\<close> gives 59, rounding to nearest gives 60.
\<close>

theorem frame_interval_not_round:
  "frame_interval \<lparr>CAP_PROP_FPS = 239 / 8, CAP_PROP_FRAME_COUNT = 60, stream = [''f0'']\<rparr> 2 = 59
   \<and> float_mul (239 / 8) 2 = 239 / 4
   \<and> round (239 / 8 * 2 :: rat) = 60"
  by code_simp

text \<open>
  C2, amended: for a frame rate \<open>fps \<ge> 0\<close> and an interval \<open>t > 0\<close> whose floating-point
  product \<open>p = fps * t\<close> is finite (below \<open>2\<^sup>1\<^sup>0\<^sup>2\<^sup>4\<close>, \<open>scale 1 1024\<close>), the frame step is
  \<open>p\<close> truncated toward zero, that is the greatest integer not above \<open>p\<close>. It is the
  nearest integer to \<open>p\<close> when the fractional part of \<open>p\<close> is below one half and one less
  than the nearest integer when the fractional part is above one half. The product \<open>p\<close>
  itself is the binary64 value nearest to the exact \<open>fps \<times> t\<close>: it differs from it by at
  most \<open>fps \<times> t / 2\<^sup>5\<^sup>3\<close>, or by \<open>2\<^sup>-\<^sup>1\<^sup>0\<^sup>7\<^sup>5\<close> (\<open>scale 1 (- 1075)\<close>) when that is more.
\<close>

theorem frame_interval_truncates:
  assumes "0 \<le> CAP_PROP_FPS v" "0 < t"
    and "float_mul (CAP_PROP_FPS v) t < scale 1 1024"
  shows "of_int (frame_interval v t) \<le> float_mul (CAP_PROP_FPS v) t
       \<and> float_mul (CAP_PROP_FPS v) t < of_int (frame_interval v t) + 1
       \<and> (frac (float_mul (CAP_PROP_FPS v) t) < 1 / 2
            \<longrightarrow> frame_interval v t = round (float_mul (CAP_PROP_FPS v) t))
       \<and> (1 / 2 < frac (float_mul (CAP_PROP_FPS v) t)
            \<longrightarrow> frame_interval v t = round (float_mul (CAP_PROP_FPS v) t) - 1)
       \<and> \<bar>float_mul (CAP_PROP_FPS v) t - CAP_PROP_FPS v * t\<bar>
            \<le> max (CAP_PROP_FPS v * t / 2 ^ 53) (scale 1 (- 1075))"
proof -
  define x where "x = float_mul (CAP_PROP_FPS v) t"
  have e0: "0 \<le> CAP_PROP_FPS v * t" using assms(1,2) by simp
  then have x0: "0 \<le> x" unfolding x_def float_mul_def by (rule double_nonneg)
  then have fi: "frame_interval v t = \<lfloor>x\<rfloor>"
    by (simp add: frame_interval_def py_int_def x_def)
  have x: "x = of_int \<lfloor>x\<rfloor> + frac x" by (simp add: frac_def)
  have f: "0 \<le> frac x" "frac x < 1" by (simp_all add: frac_lt_1)
  have lo: "frac x < 1 / 2 \<Longrightarrow> round x = \<lfloor>x\<rfloor>"
    unfolding round_def by (rule floor_unique) (use x f in linarith)+
  have hi: "1 / 2 < frac x \<Longrightarrow> round x = \<lfloor>x\<rfloor> + 1"
    unfolding round_def by (rule floor_unique) (use x f in \<open>simp; linarith\<close>)+
  have "\<bar>CAP_PROP_FPS v * t\<bar> = CAP_PROP_FPS v * t" using e0 by (rule abs_of_nonneg)
  with double_error [of "CAP_PROP_FPS v * t"]
  have err: "\<bar>x - CAP_PROP_FPS v * t\<bar> \<le> max (CAP_PROP_FPS v * t / 2 ^ 53) (scale 1 (- 1075))"
    unfolding x_def float_mul_def by (simp only:)
  have "of_int \<lfloor>x\<rfloor> \<le> x" "x < of_int \<lfloor>x\<rfloor> + 1" by linarith+
  then show ?thesis unfolding x_def [symmetric] fi using lo hi err by simp
qed

theorem frame_interval_truncates_witness:
  "(0::rat) \<le> 239 / 8 \<and> (0::rat) < 2 \<and> float_mul (239 / 8) 2 < scale 1 1024
   \<and> frame_interval \<lparr>CAP_PROP_FPS = 239 / 8, CAP_PROP_FRAME_COUNT = 60, stream = [''f0'']\<rparr> 2
       = round (float_mul (239 / 8) 2) - 1"
proof -
  let ?v = "\<lparr>CAP_PROP_FPS = 239 / 8, CAP_PROP_FRAME_COUNT = 60, stream = [''f0'']\<rparr>"
  have fr: "(1::rat) / 2 < frac (float_mul (239 / 8) 2)" by code_simp
  have fin: "float_mul (239 / 8) 2 < scale 1 1024" by code_simp
  have "0 \<le> CAP_PROP_FPS ?v" "(0::rat) < 2" "float_mul (CAP_PROP_FPS ?v) 2 < scale 1 1024"
    using fin by simp_all
  from frame_interval_truncates [OF this] fr fin show ?thesis by simp
qed

subsection \<open>C3: which frames are saved, and under which names\<close>

text \<open>
  C3. With a frame step \<open>S \<ge> 1\<close>, let \<open>c\<close> be the number of frames the run has consumed
  (however it ends). The frames written are exactly those at the consumed indices \<open>i\<close>
  with \<open>i mod S = 0\<close>, in order, and the \<open>k\<close>-th of them (\<open>k = 0, 1, 2, \<dots>\<close>) is written
  to \<open>frame_{k:04d}.jpg\<close> in the output directory. Its index is \<open>i = k \<times> S\<close>, so \<open>k \<le> i\<close>;
  the number field reads back as \<open>k\<close> and has exactly four characters as long as
  \<open>k < 10000\<close>.
\<close>

theorem persisted_iff_multiple_of_step:
  assumes "1 \<le> frame_interval v t"
    and "extract_frames_from_video v t d = (out, s)"
    and "c = length (stream v) - length (stream (cap s))"
    and "idx = filter (\<lambda>i. int i mod frame_interval v t = 0) [0..<c]"
  shows "frame_count s = int c
       \<and> saved_count s = int (length idx)
       \<and> written s =
           map (\<lambda>(k, i). (os_path_join d (''frame_'' @ format_04d (int k) @ ''.jpg''), stream v ! i))
             (enumerate 0 idx)
       \<and> (\<forall>(k, i) \<in> set (enumerate 0 idx).
             k \<le> i \<and> i = k * nat (frame_interval v t)
             \<and> digits_value (format_04d (int k)) = k
             \<and> (k < 10000 \<longrightarrow> length (format_04d (int k)) = 4))"
proof -
  have S: "frame_interval v t \<noteq> 0" using assms(1) by simp
  have idx: "idx = sampled (frame_interval v t) c" by (simp add: assms(4) sampled_def)
  from extract_consumed [OF S assms(2,3)]
  have "frame_count s = int c" "saved_count s = int (length idx)"
    "written s = images (frame_interval v t) d (stream v) c"
    by (simp_all add: idx)
  moreover have "k \<le> i \<and> i = k * nat (frame_interval v t)
      \<and> digits_value (format_04d (int k)) = k
      \<and> (k < 10000 \<longrightarrow> length (format_04d (int k)) = 4)"
    if "(k, i) \<in> set (enumerate 0 idx)" for k i
    using that sampled_index [of k i] sampled_enumerate_multiple [OF assms(1), of k i]
    by (simp add: idx length_format_04d digits_value_format_04d)
  ultimately show ?thesis
    by (auto simp: images_def idx frame_filename_def)
qed

theorem persisted_iff_multiple_of_step_witness:
  "1 \<le> frame_interval
          \<lparr>CAP_PROP_FPS = 1, CAP_PROP_FRAME_COUNT = 5, stream = [''f0'', ''f1'', ''f2'', ''f3'', ''f4'']\<rparr> 2
   \<and> written (snd (extract_frames_from_video
          \<lparr>CAP_PROP_FPS = 1, CAP_PROP_FRAME_COUNT = 5, stream = [''f0'', ''f1'', ''f2'', ''f3'', ''f4'']\<rparr> 2
          [''out'']))
       = [([''out'', ''frame_0000.jpg''], ''f0''), ([''out'', ''frame_0001.jpg''], ''f2''),
          ([''out'', ''frame_0002.jpg''], ''f4'')]"
proof -
  let ?v = "\<lparr>CAP_PROP_FPS = 1, CAP_PROP_FRAME_COUNT = 5, stream = [''f0'', ''f1'', ''f2'', ''f3'', ''f4'']\<rparr>"
  let ?r = "extract_frames_from_video ?v 2 [''out'']"
  have S: "frame_interval ?v 2 = 2" by code_simp
  then have h1: "1 \<le> frame_interval ?v 2" by simp
  have h2: "?r = (fst ?r, snd ?r)" by simp
  have c: "length (stream ?v) - length (stream (cap (snd ?r))) = 5" by code_simp
  have idx: "filter (\<lambda>i. int i mod 2 = 0) [0..<5] = [0, 2, 4]" by code_simp
  from persisted_iff_multiple_of_step [OF h1 h2 refl refl]
  have "written (snd ?r) =
      map (\<lambda>(k, i). (os_path_join [''out''] (''frame_'' @ format_04d (int k) @ ''.jpg''), stream ?v ! i))
        (enumerate 0 [0, 2, 4])"
    unfolding c S idx by simp
  also have "\<dots> = [([''out'', ''frame_0000.jpg''], ''f0''), ([''out'', ''frame_0001.jpg''], ''f2''),
          ([''out'', ''frame_0002.jpg''], ''f4'')]"
    by code_simp
  finally show ?thesis using h1 by simp
qed

subsection \<open>C4: invalid input\<close>

text \<open>
  C4, as stated: the function fails with an InvalidInput error whenever the interval is
  not positive. With an interval of \<open>-2\<close> seconds at 30 frames per second the frame step
  is \<open>-60\<close>; index 0 is a multiple of it, the frame is saved and the call returns 1.
\<close>

theorem negative_interval_accepted:
  "(- 2 :: rat) \<le> 0
   \<and> fst (extract_frames_from_video
            \<lparr>CAP_PROP_FPS = 30, CAP_PROP_FRAME_COUNT = 1, stream = [''f0'']\<rparr> (- 2) [''out''])
       = Inr (1, [''out''])"
  by code_simp

text \<open>
  C4, amended: the function does not validate its arguments and has no InvalidInput
  error. When the computed frame step is 0 and the source delivers at least one frame, the
  call fails with Python's \<open>ZeroDivisionError\<close>, raised by \<open>frame_count % frame_interval\<close>
  at the first frame, before any image is written.
\<close>

theorem zero_step_raises:
  assumes "frame_interval v t = 0" "stream v \<noteq> []"
  shows "fst (extract_frames_from_video v t d) = Inl ZeroDivisionError
       \<and> written (snd (extract_frames_from_video v t d)) = []"
proof -
  from assms(2) obtain f fs where "stream v = f # fs" by (cases "stream v") auto
  from extract_step_zero [OF assms(1) this, of d] show ?thesis by simp
qed

theorem zero_step_raises_witness:
  "frame_interval \<lparr>CAP_PROP_FPS = 30, CAP_PROP_FRAME_COUNT = 1, stream = [''f0'']\<rparr> 0 = 0
   \<and> stream \<lparr>CAP_PROP_FPS = 30, CAP_PROP_FRAME_COUNT = 1, stream = [''f0'']\<rparr> \<noteq> []
   \<and> fst (extract_frames_from_video
            \<lparr>CAP_PROP_FPS = 30, CAP_PROP_FRAME_COUNT = 1, stream = [''f0'']\<rparr> 0 [''out''])
       = Inl ZeroDivisionError"
proof -
  let ?v = "\<lparr>CAP_PROP_FPS = 30, CAP_PROP_FRAME_COUNT = 1, stream = [''f0'']\<rparr>"
  have h1: "frame_interval ?v 0 = 0" by code_simp
  have h2: "stream ?v \<noteq> []" by simp
  from zero_step_raises [OF h1 h2, of "[''out'']"] h1 h2 show ?thesis by simp
qed

subsection \<open>C5: the progress fraction\<close>

text \<open>
  When the declared frame count is positive (accurate or not) and the frame step is not 0,
  no exception is raised, the source is read to its end, and the bar shows 0 and then
  \<open>min(i / total_frames, 1)\<close> for \<open>i = 1, \<dots>, N\<close>, all within \<open>[0, 1]\<close>.
\<close>

lemma progress_in_unit_interval:
  assumes "frame_interval v t \<noteq> 0" "0 < total_frames v"
  shows "fst (extract_frames_from_video v t d) \<noteq> Inl e
       \<and> stream (cap (snd (extract_frames_from_video v t d))) = []
       \<and> progress_bar (snd (extract_frames_from_video v t d)) =
           0 # map (\<lambda>i. min (int_truediv (int i) (total_frames v)) 1)
                 [1..<Suc (length (stream v))]
       \<and> set (progress_bar (snd (extract_frames_from_video v t d))) \<subseteq> {0..1}"
proof -
  have "0 \<le> min (int_truediv (int i) (total_frames v)) 1" for i
    using assms(2) by (simp add: int_truediv_nonneg)
  then show ?thesis
    using extract_normal [OF assms, of d] by (auto simp: shown_def)
qed

text \<open>
  C5. The claim: the progress fraction after each consumed frame lies in \<open>[0, 1]\<close> and is
  computed without error even when the declared frame count is inaccurate, zero included,
  and the loop ends exactly when the source is exhausted. For a source of two frames
  whose container declares 0 frames, \<open>frame_count / total_frames\<close> raises
  \<open>ZeroDivisionError\<close> after the first frame: no fraction is shown and the second frame is
  never read.
\<close>

theorem progress_declared_total_zero:
  "total_frames \<lparr>CAP_PROP_FPS = 30, CAP_PROP_FRAME_COUNT = 0, stream = [''f0'', ''f1'']\<rparr> = 0
   \<and> extract_frames_from_video
        \<lparr>CAP_PROP_FPS = 30, CAP_PROP_FRAME_COUNT = 0, stream = [''f0'', ''f1'']\<rparr> 2 [''out'']
       = (Inl ZeroDivisionError,
          \<lparr>cap = \<lparr>CAP_PROP_FPS = 30, CAP_PROP_FRAME_COUNT = 0, stream = [''f1'']\<rparr>,
           frame_count = 1, saved_count = 1,
           written = [([''out'', ''frame_0000.jpg''], ''f0'')],
           progress_bar = [0]\<rparr>)"
  by code_simp

subsection \<open>C6: a source without frames\<close>



subsection \<open>C9: two runs on the same video\<close>

text \<open>
  C9. Two runs on the same video with the same interval, into the directories \<open>d1\<close> and
  \<open>d2\<close>, end the same way (the same count returned or the same exception), and write the
  same frames under the same file names in the same order: one list \<open>imgs\<close> of file names
  and frames, placed under \<open>d1\<close> by the first run and under \<open>d2\<close> by the second. The file
  names are distinct, so no file of a run overwrites another one.
\<close>

theorem extraction_deterministic:
  "\<exists>res imgs.
     distinct (map fst imgs)
     \<and> fst (extract_frames_from_video v t d1) = map_sum id (\<lambda>n. (n, d1)) res
     \<and> written (snd (extract_frames_from_video v t d1)) = map (\<lambda>(n, f). (os_path_join d1 n, f)) imgs
     \<and> fst (extract_frames_from_video v t d2) = map_sum id (\<lambda>n. (n, d2)) res
     \<and> written (snd (extract_frames_from_video v t d2)) = map (\<lambda>(n, f). (os_path_join d2 n, f)) imgs"
proof -
  let ?S = "frame_interval v t" and ?T = "total_frames v"
  let ?s0 = "\<lparr>cap = v, frame_count = 0, saved_count = 0, written = [], progress_bar = [0]\<rparr>"
  obtain e s1 where run1: "frames_loop ?S ?T d1 ?s0 = (e, s1)"
    by (cases "frames_loop ?S ?T d1 ?s0")
  have "relocate d2 ?s0 = ?s0" by (simp add: relocate_def)
  with frames_loop_relocate [of ?S ?T d2 ?s0 d1] run1
  have run2: "frames_loop ?S ?T d2 ?s0 = (e, relocate d2 s1)" by simp
  define res where "res = (case e of Some err \<Rightarrow> Inl err | None \<Rightarrow> Inr (saved_count s1))"
  have out1: "extract_frames_from_video v t d1 = (map_sum id (\<lambda>n. (n, d1)) res, s1)"
    using run1 by (simp add: extract_frames_from_video_def res_def split: option.splits)
  have out2: "extract_frames_from_video v t d2 = (map_sum id (\<lambda>n. (n, d2)) res, relocate d2 s1)"
    using run2
    by (simp add: extract_frames_from_video_def res_def relocate_def split: option.splits)
  have "\<exists>imgs. distinct (map fst imgs) \<and> written s1 = map (\<lambda>(n, f). (os_path_join d1 n, f)) imgs"
  proof (cases "?S = 0")
    case True
    have "written s1 = []"
    proof (cases "stream v")
      case Nil
      from extract_empty [OF Nil, of t d1] out1 show ?thesis by simp
    next
      case (Cons f fs)
      from extract_step_zero [OF True Cons, of d1] out1 show ?thesis by simp
    qed
    then show ?thesis by simp
  next
    case False
    from extract_consumed [OF False out1 refl]
    have "written s1 = images ?S d1 (stream v) (length (stream v) - length (stream (cap s1)))"
      by simp
    then show ?thesis using distinct_named by (auto simp: images_named)
  qed
  then obtain imgs where d: "distinct (map fst imgs)"
    and w1: "written s1 = map (\<lambda>(n, f). (os_path_join d1 n, f)) imgs"
    by blast
  have w2: "written (relocate d2 s1) = map (\<lambda>(n, f). (os_path_join d2 n, f)) imgs"
    by (simp add: relocate_def w1 os_path_join_def case_prod_unfold comp_def)
  from d w1 w2 show ?thesis unfolding out1 out2 by (intro exI [of _ res] exI [of _ imgs]) simp
qed

section \<open>Properties of the archive builder\<close>

subsection \<open>Looking up and writing files\<close>

lemma lookup_append:
  "lookup n (p @ q) = (case lookup n p of None \<Rightarrow> None | Some m \<Rightarrow> lookup m q)"
  by (induction n p rule: lookup.induct) (auto split: option.splits)

lemma lookup_File: "lookup (File c) p = Some m \<Longrightarrow> p = [] \<and> m = File c"
  by (cases p) auto

lemma lookup_entry:
  assumes "distinct (map fst es)" "(x, m) \<in> set es"
  shows "lookup (Dir es) (x # p) = lookup m p"
  using assms by simp

lemma write_file_lookup:
  "write_file p c n = Inr n' \<Longrightarrow> lookup n' p = Some (File c)"
  by (induction p c n arbitrary: n' rule: write_file.induct)
     (auto simp: update_conv' split: option.splits sum.splits if_splits)

lemma write_file_other:
  "write_file p c n = Inr n' \<Longrightarrow> \<not> prefix q p \<Longrightarrow> lookup n' q = lookup n q"
proof (induction p c n arbitrary: n' q rule: write_file.induct)
  case (1 c old)
  then show ?case by (cases q) auto
next
  case (2 c es)
  then show ?case by simp
next
  case (3 x p c old)
  then show ?case by simp
next
  case (4 x p c es)
  from "4.prems"(2) obtain y q' where q: "q = y # q'" by (cases q) auto
  show ?case
  proof (cases "y = x")
    case False
    with "4.prems" show ?thesis
      by (auto simp: q update_conv' split: option.splits sum.splits if_splits)
  next
    case True
    with "4.prems"(2) have np: "\<not> prefix q' p" by (simp add: q)
    show ?thesis
    proof (cases "map_of es x")
      case None
      with "4.prems"(1) have "p = []" and n': "n' = Dir (AList.update x (File c) es)"
        by (auto split: if_splits)
      with np have "q' \<noteq> []" by auto
      then obtain z q'' where "q' = z # q''" by (cases q') auto
      then show ?thesis using None by (simp add: q True n' update_conv')
    next
      case (Some m)
      with "4.prems"(1) obtain m' where w: "write_file p c m = Inr m'"
        and n': "n' = Dir (AList.update x m' es)"
        by (auto split: sum.splits)
      from "4.IH" [OF Some w np] show ?thesis
        using Some by (simp add: q True n' update_conv')
    qed
  qed
qed

lemma set_update_subset: "set (AList.update k v al) \<subseteq> insert (k, v) (set al)"
  by (induction al) auto

lemma write_file_wf:
  "write_file p c n = Inr n' \<Longrightarrow> wf_node n \<Longrightarrow> (p \<noteq> [] \<Longrightarrow> valid_name (last p)) \<Longrightarrow> wf_node n'"
proof (induction p c n arbitrary: n' rule: write_file.induct)
  case (4 x p c es)
  show ?case
  proof (cases "map_of es x")
    case None
    with "4.prems" have "p = []" and n': "n' = Dir (AList.update x (File c) es)"
      by (auto split: if_splits)
    with "4.prems" have "valid_name x" by simp
    then show ?thesis
      using "4.prems"(2) set_update_subset [of x "File c" es]
      by (auto simp: n' distinct_update)
  next
    case (Some m)
    with "4.prems"(1) obtain m' where w: "write_file p c m = Inr m'"
      and n': "n' = Dir (AList.update x m' es)"
      by (auto split: sum.splits)
    from Some have xm: "(x, m) \<in> set es" by (rule map_of_SomeD)
    with "4.prems"(2) have "wf_node m" "valid_name x" by auto
    moreover have "p \<noteq> [] \<Longrightarrow> valid_name (last p)" using "4.prems"(3) by simp
    ultimately have "wf_node m'" using "4.IH" [OF Some w] by simp
    then show ?thesis
      using "4.prems"(2) set_update_subset [of x m' es] \<open>valid_name x\<close>
      by (auto simp: n' distinct_update)
  qed
qed simp_all

lemma write_file_again:
  "write_file p c n = Inr n' \<Longrightarrow> \<exists>n''. write_file p c' n' = Inr n''"
proof (induction p c n arbitrary: n' rule: write_file.induct)
  case (4 x p c es)
  show ?case
  proof (cases "map_of es x")
    case None
    with "4.prems" have "p = []" and n': "n' = Dir (AList.update x (File c) es)"
      by (auto split: if_splits)
    then show ?thesis by (simp add: update_conv')
  next
    case (Some m)
    with "4.prems"(1) obtain m' where w: "write_file p c m = Inr m'"
      and n': "n' = Dir (AList.update x m' es)"
      by (auto split: sum.splits)
    from "4.IH" [OF Some w] obtain m'' where "write_file p c' m' = Inr m''" by auto
    then show ?thesis by (simp add: n' update_conv')
  qed
qed auto

subsection \<open>The walk adds one member per file it meets\<close>

lemma lookup_wf: "wf_node n \<Longrightarrow> lookup n p = Some m \<Longrightarrow> wf_node m"
proof (induction n p rule: lookup.induct)
  case (3 es x p)
  then obtain k where k: "map_of es x = Some k" and l: "lookup k p = Some m"
    by (auto split: option.splits)
  from k have "(x, k) \<in> set es" by (rule map_of_SomeD)
  with "3.prems"(1) have "wf_node k" by auto
  with "3.IH" [OF k] l show ?case by simp
qed auto

lemma commonprefix_append: "commonprefix xs (xs @ ys) = xs"
  by (induction xs) auto

lemma relpath_below:
  "q \<noteq> [] \<Longrightarrow> os_path_relpath (folder @ q) folder = sep_join q"
  by (simp add: os_path_relpath_def commonprefix_append Let_def)

lemma for_files_ok:
  assumes "\<forall>(n, m) \<in> set fl. is_File m \<and> lookup fs (os_path_join dirpath n) = Some m"
  shows "for_files deflate fs folder dirpath (map fst fl) z =
     Inr (z @ map (\<lambda>(n, m). (os_path_relpath (os_path_join dirpath n) folder,
                              deflate (content_of m))) fl)"
  using assms
proof (induction fl arbitrary: z)
  case Nil
  show ?case by simp
next
  case (Cons a fl)
  obtain n m where a: "a = (n, m)" by (cases a)
  with Cons.prems obtain c where m: "m = File c"
    and l: "lookup fs (os_path_join dirpath n) = Some (File c)"
    by (cases m) auto
  have "\<forall>(n, m) \<in> set fl. is_File m \<and> lookup fs (os_path_join dirpath n) = Some m"
    using Cons.prems by simp
  from Cons.IH [OF this] show ?case
    by (simp add: a m l ZipFile_write_def Let_def)
qed

lemma for_walk_append:
  "for_walk deflate fs folder (xs @ ys) z =
     (case for_walk deflate fs folder xs z of
        Inl e \<Rightarrow> Inl e
      | Inr z' \<Rightarrow> for_walk deflate fs folder ys z')"
  by (induction xs arbitrary: z) (auto split: sum.splits)

lemma for_walk_walk:
  assumes "wf_node m" "lookup fs dirpath = Some m"
  shows "for_walk deflate fs folder (walk dirpath m) z =
     Inr (z @ map (\<lambda>(q, c). (os_path_relpath (dirpath @ q) folder, deflate c)) (walk_files m))"
  using assms
proof (induction dirpath m arbitrary: z rule: walk.induct)
  case (1 dirpath c)
  show ?case by simp
next
  case (2 dirpath es)
  let ?name = "\<lambda>q. os_path_relpath (dirpath @ q) folder"
  have dist: "distinct (map fst es)" using "2.prems"(1) by simp
  have child: "lookup fs (os_path_join dirpath n) = Some k" if "(n, k) \<in> set es" for n k
    using that dist "2.prems"(2) by (simp add: os_path_join_def lookup_append)
  have files: "for_files deflate fs folder dirpath (map fst (filter (is_File \<circ> snd) es)) z =
      Inr (z @ map (\<lambda>(n, m). (?name [n], deflate (content_of m))) (filter (is_File \<circ> snd) es))"
    using for_files_ok [of "filter (is_File \<circ> snd) es" fs dirpath deflate folder z] child
    by (auto simp: os_path_join_def)
  have dirs: "for_walk deflate fs folder
        (concat (map (\<lambda>(n, m). walk (os_path_join dirpath n) m) ds)) z' =
      Inr (z' @ concat (map (\<lambda>(n, m). map (\<lambda>(q, c). (?name (n # q), deflate c)) (walk_files m)) ds))"
    if "set ds \<subseteq> set (filter (is_Dir \<circ> snd) es)" for ds z'
    using that
  proof (induction ds arbitrary: z')
    case Nil
    show ?case by simp
  next
    case (Cons a ds)
    obtain n k where a: "a = (n, k)" by (cases a)
    with Cons.prems have mem: "(n, k) \<in> set (filter (is_Dir \<circ> snd) es)" by simp
    then have nk: "(n, k) \<in> set es" by simp
    with "2.prems"(1) have "wf_node k" by auto
    from "2.IH" [OF mem refl this child [OF nk]]
    have "for_walk deflate fs folder (walk (os_path_join dirpath n) k) z' =
        Inr (z' @ map (\<lambda>(q, c). (?name (n # q), deflate c)) (walk_files k))"
      by (simp add: os_path_join_def)
    moreover have "set ds \<subseteq> set (filter (is_Dir \<circ> snd) es)" using Cons.prems by simp
    ultimately show ?case using Cons.IH by (simp add: a for_walk_append)
  qed
  show ?case
    using files dirs [OF subset_refl]
    by (simp add: map_concat comp_def case_prod_unfold)
qed

subsection \<open>The walk meets every regular file once\<close>

lemma mset_walk_files_node:
  "is_Dir m \<Longrightarrow> mset (walk_files m) = mset (regular_files m)"
proof (induction m rule: regular_files.induct)
  case (1 c)
  then show ?case by simp
next
  case (2 es)
  have sub: "mset (walk_files k) = mset (regular_files k)" if "(n, k) \<in> set es" "is_Dir k" for n k
    using "2.IH" [OF that(1) refl that(2)] .
  have "mset (map (\<lambda>(n, m). ([n], content_of m)) (filter (is_File \<circ> snd) xs)) +
        mset (concat (map (\<lambda>(n, m). map (\<lambda>(p, c). (n # p, c)) (walk_files m))
               (filter (is_Dir \<circ> snd) xs))) =
        mset (concat (map (\<lambda>(n, m). map (\<lambda>(p, c). (n # p, c)) (regular_files m)) xs))"
    if "set xs \<subseteq> set es" for xs
    using that
  proof (induction xs)
    case Nil
    show ?case by simp
  next
    case (Cons a xs)
    obtain n k where a: "a = (n, k)" by (cases a)
    have "set xs \<subseteq> set es" using Cons.prems by simp
    note IH = Cons.IH [OF this]
    show ?case
    proof (cases k)
      case (File c)
      then show ?thesis using IH by (simp add: a)
    next
      case (Dir ds)
      have dk: "is_Dir k" "\<not> is_File k" using Dir by simp_all
      have "(n, k) \<in> set es" using Cons.prems a by simp
      then have "mset (walk_files k) = mset (regular_files k)" using dk(1) by (rule sub)
      then have "mset (map (\<lambda>(p, c). (n # p, c)) (walk_files k)) =
                 mset (map (\<lambda>(p, c). (n # p, c)) (regular_files k))"
        by (metis mset_map)
      then show ?thesis using IH dk by (simp add: a)
    qed
  qed
  from this [OF subset_refl] show ?case by simp
qed

lemma mset_walk_files:
  "mset (walk_files (Dir es)) = mset (regular_files (Dir es))"
  by (rule mset_walk_files_node) simp

lemma regular_files_paths:
  assumes "wf_node m" "(q, c) \<in> set (regular_files m)"
  shows "list_all valid_name q \<and> (is_Dir m \<longrightarrow> q \<noteq> [])"
  using assms
proof (induction m arbitrary: q c rule: regular_files.induct)
  case (1 c')
  then show ?case by simp
next
  case (2 es)
  from "2.prems"(2) obtain n k p where nk: "(n, k) \<in> set es"
    and p: "(p, c) \<in> set (regular_files k)" and q: "q = n # p"
    by auto
  from "2.prems"(1) nk have "valid_name n" "wf_node k" by auto
  with "2.IH" [OF nk refl _ p] show ?case by (simp add: q)
qed

lemma distinct_regular_files:
  assumes "wf_node m"
  shows "distinct (map fst (regular_files m))"
  using assms
proof (induction m rule: regular_files.induct)
  case (1 c)
  show ?case by simp
next
  case (2 es)
  define g where "g = (\<lambda>(n, m). map (\<lambda>(p, c). (n # p, c)) (regular_files m))"
  have g: "map fst (g (n, k)) = map ((#) n) (map fst (regular_files k))" for n k
    by (simp add: g_def case_prod_unfold comp_def)
  have "distinct (concat (map (map fst \<circ> g) xs))"
    if "set xs \<subseteq> set es" "distinct (map fst xs)" for xs
    using that
  proof (induction xs)
    case Nil
    show ?case by simp
  next
    case (Cons a xs)
    obtain n k where a: "a = (n, k)" by (cases a)
    have nk: "(n, k) \<in> set es" using Cons.prems a by simp
    with "2.prems" have "wf_node k" by auto
    from "2.IH" [OF nk refl this]
    have "distinct (map ((#) n) (map fst (regular_files k)))"
      by (subst distinct_map) (simp add: inj_on_def)
    then have d1: "distinct (map fst (g (n, k)))"
      by (simp only: g)
    have "set xs \<subseteq> set es" "distinct (map fst xs)" using Cons.prems by simp_all
    then have d2: "distinct (concat (map (map fst \<circ> g) xs))" by (rule Cons.IH)
    have "n \<notin> fst ` set xs" using Cons.prems(2) a by simp
    then have "set (map fst (g (n, k))) \<inter> set (concat (map (map fst \<circ> g) xs)) = {}"
      by (auto simp: g_def image_iff)
    with d1 d2 show ?case by (simp add: a comp_def)
  qed
  from this [OF subset_refl] "2.prems" have "distinct (concat (map (map fst \<circ> g) es))" by simp
  then show ?case by (simp add: g_def map_concat comp_def)
qed

subsection \<open>Member names\<close>

lemma split_sep_name: "CHR ''/'' \<notin> set x \<Longrightarrow> split_sep x = [x]"
  by (induction x) auto

lemma split_sep_append:
  "CHR ''/'' \<notin> set x \<Longrightarrow> split_sep (x @ CHR ''/'' # r) = x # split_sep r"
  by (induction x) auto

lemma split_sep_sep_join:
  "q \<noteq> [] \<Longrightarrow> list_all valid_name q \<Longrightarrow> split_sep (sep_join q) = q"
  by (induction q rule: sep_join.induct)
     (simp_all add: valid_name_def split_sep_name split_sep_append)

lemma member_path_sep_join:
  assumes "q \<noteq> []" "list_all valid_name q"
  shows "member_path (sep_join q) = q"
proof -
  have "filter (\<lambda>x. x \<noteq> [] \<and> x \<noteq> ''.'' \<and> x \<noteq> ''..'') q = q"
    using assms(2) by (induction q) (auto simp: valid_name_def)
  then show ?thesis by (simp add: member_path_def split_sep_sep_join [OF assms])
qed

lemma sep_join_shape:
  "q \<noteq> [] \<Longrightarrow> list_all valid_name q \<Longrightarrow>
     sep_join q \<noteq> [] \<and> hd (sep_join q) \<noteq> CHR ''/'' \<and> last (sep_join q) \<noteq> CHR ''/''"
proof (induction q rule: sep_join.induct)
  case 1
  then show ?case by simp
next
  case (2 x)
  then have "x \<noteq> []" "CHR ''/'' \<notin> set x" by (simp_all add: valid_name_def)
  then have "hd x \<noteq> CHR ''/''" "last x \<noteq> CHR ''/''"
    by (metis hd_in_set, metis last_in_set)
  then show ?case using \<open>x \<noteq> []\<close> by simp
next
  case (3 x y ys)
  then have "x \<noteq> []" "CHR ''/'' \<notin> set x" by (simp_all add: valid_name_def)
  then have "hd x \<noteq> CHR ''/''" by (metis hd_in_set)
  then show ?case using 3 \<open>x \<noteq> []\<close> by simp
qed

lemma sep_join_inj:
  assumes "q \<noteq> []" "list_all valid_name q" "q' \<noteq> []" "list_all valid_name q'"
    and "sep_join q = sep_join q'"
  shows "q = q'"
  using assms by (metis split_sep_sep_join)

subsection \<open>Unpacking\<close>

lemma extractall_snoc:
  "extractall inflate (zipf @ [(name, data)]) =
     (if member_is_dir name then extractall inflate zipf
      else (extractall inflate zipf)(member_path name \<mapsto> inflate data))"
  by (simp add: extractall_def)

lemma extractall_sep_join:
  assumes "\<forall>(q, c) \<in> set xs. q \<noteq> [] \<and> list_all valid_name q \<and> inflate (deflate c) = c"
  shows "extractall inflate (map (\<lambda>(q, c). (sep_join q, deflate c)) xs) = map_of (rev xs)"
  using assms
proof (induction xs rule: rev_induct)
  case Nil
  show ?case by (simp add: extractall_def)
next
  case (snoc a xs)
  obtain q c where a: "a = (q, c)" by (cases a)
  with snoc.prems have q: "q \<noteq> []" "list_all valid_name q" and c: "inflate (deflate c) = c"
    by simp_all
  have nd: "\<not> member_is_dir (sep_join q)"
    using sep_join_shape [OF q] by (simp add: member_is_dir_def)
  have "\<forall>(q, c) \<in> set xs. q \<noteq> [] \<and> list_all valid_name q \<and> inflate (deflate c) = c"
    using snoc.prems by simp
  then have IH: "extractall inflate (map (\<lambda>(q, c). (sep_join q, deflate c)) xs) = map_of (rev xs)"
    by (rule snoc.IH)
  have "extractall inflate (map (\<lambda>(q, c). (sep_join q, deflate c)) (xs @ [a])) =
        (map_of (rev xs))(q \<mapsto> c)"
    by (simp add: a extractall_snoc nd member_path_sep_join [OF q] c IH)
  then show ?case by (simp add: a)
qed

subsection \<open>The archive of a directory\<close>

declare walk_files.simps [simp del] regular_files.simps [simp del]

lemma walk_files_paths:
  assumes "wf_node (Dir es)" "(q, c) \<in> set (walk_files (Dir es))"
  shows "q \<noteq> [] \<and> list_all valid_name q"
proof -
  have "(q, c) \<in> set (regular_files (Dir es))"
    using assms(2) mset_eq_setD [OF mset_walk_files [of es]] by simp
  from regular_files_paths [OF assms(1) this] show ?thesis by simp
qed

lemma create_zip_opened:
  assumes "create_zip_from_folder deflate tmp fs folder zip_name = Inr (zip_path, fs2)"
  obtains fs1 zipf where "zip_path = os_path_join tmp zip_name"
    and "ZipFile_open zip_path fs = Inr fs1"
    and "for_walk deflate fs1 folder (os_walk fs1 folder) [] = Inr zipf"
    and "ZipFile_close zip_path zipf fs1 = Inr fs2"
  using assms
  by (auto simp: create_zip_from_folder_def Let_def split: sum.splits)

lemma archive_members:
  assumes "wf_node fs" "valid_name zip_name"
    and "ZipFile_open (os_path_join tmp zip_name) fs = Inr fs1"
    and "lookup fs1 folder = Some (Dir es)"
  shows "for_walk deflate fs1 folder (os_walk fs1 folder) [] =
           Inr (map (\<lambda>(q, c). (sep_join q, deflate c)) (walk_files (Dir es)))"
    and "wf_node (Dir es)"
proof -
  have "wf_node fs1"
    using assms(1,2,3) write_file_wf [of "os_path_join tmp zip_name" "Raw []" fs fs1]
    by (simp add: ZipFile_open_def os_path_join_def)
  then show wf: "wf_node (Dir es)" using assms(4) by (rule lookup_wf)
  have "map (\<lambda>(q, c). (os_path_relpath (folder @ q) folder, deflate c)) (walk_files (Dir es)) =
        map (\<lambda>(q, c). (sep_join q, deflate c)) (walk_files (Dir es))"
    using walk_files_paths [OF wf] by (auto simp: relpath_below)
  then show "for_walk deflate fs1 folder (os_walk fs1 folder) [] =
           Inr (map (\<lambda>(q, c). (sep_join q, deflate c)) (walk_files (Dir es)))"
    using for_walk_walk [OF wf assms(4), of deflate folder "[]"] assms(4)
    by (simp add: os_walk_def)
qed

lemma distinct_member_names:
  assumes "wf_node (Dir es)"
  shows "distinct (map (sep_join \<circ> fst) (walk_files (Dir es)))"
proof -
  have "distinct (map fst (regular_files (Dir es)))"
    using assms by (rule distinct_regular_files)
  moreover have "mset (map fst (walk_files (Dir es))) = mset (map fst (regular_files (Dir es)))"
    by (simp add: mset_walk_files)
  ultimately have d: "distinct (map fst (walk_files (Dir es)))"
    by (metis mset_eq_imp_distinct_iff)
  have "inj_on sep_join (set (map fst (walk_files (Dir es))))"
    using walk_files_paths [OF assms] by (intro inj_onI sep_join_inj) auto
  with d have "distinct (map sep_join (map fst (walk_files (Dir es))))"
    by (simp only: distinct_map simp_thms)
  then show ?thesis by simp
qed

subsection \<open>The example, evaluated\<close>

lemma example_first_call:
  "create_zip_from_folder rev_deflate [''tmp''] example_fs [''tmp'', ''tmpab12''] default_zip_name
     = Inr (example_zip_path, example_fs1)"
  by code_simp

lemma example_second_call:
  "create_zip_from_folder rev_deflate [''tmp''] example_fs1 [''tmp'', ''tmpcd34''] default_zip_name
     = Inr (example_zip_path, example_fs2)"
  by code_simp

lemma example_wf: "wf_node example_fs" by code_simp
lemma example_name: "valid_name default_zip_name" by code_simp
lemma example_outside: "\<not> prefix [''tmp'', ''tmpab12''] (os_path_join [''tmp''] default_zip_name)"
  by code_simp
lemma example_outside': "\<not> prefix [''tmp'', ''tmpab12''] example_zip_path"
  by code_simp
lemma example_source: "lookup example_fs [''tmp'', ''tmpab12''] = Some (Dir frames_dir)"
  by code_simp
lemma example_codec:
  "\<forall>(p, c) \<in> set (regular_files (Dir frames_dir)). rev_inflate (rev_deflate c) = c"
  by code_simp
lemma example_file:
  "map_of (regular_files (Dir frames_dir)) [''sub'', ''x.txt''] = Some (Raw ''hello'')"
  by code_simp
lemma example_open:
  "ZipFile_open (os_path_join [''tmp''] default_zip_name) example_fs = Inr example_opened"
  by code_simp
lemma example_opened_source: "lookup example_opened [''tmp'', ''tmpab12''] = Some (Dir frames_dir)"
  by code_simp
lemma example_names:
  "map (sep_join \<circ> fst) (regular_files (Dir frames_dir)) =
     [''frame_0000.jpg'', ''sub/x.txt'', ''frame_0001.jpg'']"
  by code_simp
lemma example_archive1: "lookup example_fs1 example_zip_path = Some (File (Zip first_archive))"
  by code_simp
lemma example_archive2:
  "lookup example_fs2 example_zip_path = Some (File (Zip [(''frame_0000.jpg'', ''zyx'')]))"
  by code_simp

subsection \<open>C7: the members of the archive\<close>

text \<open>
  C7. Let the archive have been opened (created or emptied) and let \<open>folder_path\<close> be a
  directory at that time, which is when \<open>os.walk\<close> reads it. Then the archive written
  holds exactly one member per regular file under that directory: the member names are,
  counted with multiplicity, the relative paths of the files joined with the separator,
  and no name occurs twice. No name is empty or starts with a separator, and no name has
  a \<open>..\<close> component. When the archive file does not lie under \<open>folder_path\<close>, the
  directory read is the directory as it was before the call.
\<close>

theorem archive_has_one_entry_per_file:
  assumes "wf_node fs" and "valid_name zip_name"
    and "ZipFile_open (os_path_join gettempdir zip_name) fs = Inr fs1"
    and "lookup fs1 folder_path = Some (Dir es)"
    and "create_zip_from_folder deflate gettempdir fs folder_path zip_name = Inr (zip_path, fs')"
  shows "\<exists>zipf. lookup fs' zip_path = Some (File (Zip zipf))
       \<and> mset (map fst zipf) = mset (map (sep_join \<circ> fst) (regular_files (Dir es)))
       \<and> distinct (map fst zipf)
       \<and> (\<forall>name \<in> set (map fst zipf).
             name \<noteq> [] \<and> hd name \<noteq> CHR ''/'' \<and> ''..'' \<notin> set (split_sep name))
       \<and> (\<not> prefix folder_path zip_path \<longrightarrow> lookup fs folder_path = Some (Dir es))"
proof -
  from assms(5) obtain fs1' zipf where zp: "zip_path = os_path_join gettempdir zip_name"
    and op: "ZipFile_open zip_path fs = Inr fs1'"
    and fw: "for_walk deflate fs1' folder_path (os_walk fs1' folder_path) [] = Inr zipf"
    and cl: "ZipFile_close zip_path zipf fs1' = Inr fs'"
    by (rule create_zip_opened)
  from op assms(3) have fs1: "fs1' = fs1" by (simp add: zp)
  have wf: "wf_node (Dir es)" using assms(1-4) by (rule archive_members(2))
  have zipf: "zipf = map (\<lambda>(q, c). (sep_join q, deflate c)) (walk_files (Dir es))"
    using archive_members(1) [OF assms(1-4), of deflate] fw by (simp add: fs1)
  have names: "map fst zipf = map (sep_join \<circ> fst) (walk_files (Dir es))"
    by (simp add: zipf comp_def case_prod_unfold)
  have 1: "lookup fs' zip_path = Some (File (Zip zipf))"
    using cl by (simp add: ZipFile_close_def write_file_lookup)
  have 2: "mset (map fst zipf) = mset (map (sep_join \<circ> fst) (regular_files (Dir es)))"
    unfolding names by (simp add: mset_walk_files)
  have 3: "distinct (map fst zipf)"
    unfolding names using wf by (rule distinct_member_names)
  have 4: "name \<noteq> [] \<and> hd name \<noteq> CHR ''/'' \<and> ''..'' \<notin> set (split_sep name)"
    if "name \<in> set (map fst zipf)" for name
  proof -
    from that obtain q c where qc: "(q, c) \<in> set (walk_files (Dir es))" and n: "name = sep_join q"
      by (auto simp: names)
    from walk_files_paths [OF wf qc] have q: "q \<noteq> []" "list_all valid_name q" by simp_all
    then have "''..'' \<notin> set q" by (auto simp: list_all_iff valid_name_def)
    then show ?thesis using sep_join_shape [OF q] split_sep_sep_join [OF q] by (simp add: n)
  qed
  have 5: "lookup fs folder_path = Some (Dir es)" if "\<not> prefix folder_path zip_path"
    using write_file_other [OF _ that, of "Raw []" fs fs1] assms(3,4)
    by (simp add: ZipFile_open_def zp)
  from 1 2 3 4 5 show ?thesis by blast
qed

theorem archive_has_one_entry_per_file_witness:
  "wf_node example_fs \<and> valid_name default_zip_name
   \<and> ZipFile_open (os_path_join [''tmp''] default_zip_name) example_fs = Inr example_opened
   \<and> lookup example_opened [''tmp'', ''tmpab12''] = Some (Dir frames_dir)
   \<and> create_zip_from_folder rev_deflate [''tmp''] example_fs [''tmp'', ''tmpab12'']
        default_zip_name = Inr (example_zip_path, example_fs1)
   \<and> \<not> prefix [''tmp'', ''tmpab12''] example_zip_path
   \<and> lookup example_fs1 example_zip_path = Some (File (Zip first_archive))
   \<and> mset (map fst first_archive) = mset [''frame_0000.jpg'', ''sub/x.txt'', ''frame_0001.jpg'']
   \<and> lookup example_fs [''tmp'', ''tmpab12''] = Some (Dir frames_dir)"
proof -
  from archive_has_one_entry_per_file
         [OF example_wf example_name example_open example_opened_source example_first_call]
  obtain zipf where z: "lookup example_fs1 example_zip_path = Some (File (Zip zipf))"
    and m: "mset (map fst zipf) = mset (map (sep_join \<circ> fst) (regular_files (Dir frames_dir)))"
    and s: "\<not> prefix [''tmp'', ''tmpab12''] example_zip_path \<longrightarrow>
              lookup example_fs [''tmp'', ''tmpab12''] = Some (Dir frames_dir)"
    by blast
  from z have "zipf = first_archive" by (simp add: example_archive1)
  with m have "mset (map fst first_archive) =
      mset [''frame_0000.jpg'', ''sub/x.txt'', ''frame_0001.jpg'']"
    by (simp only: example_names)
  moreover from s have "lookup example_fs [''tmp'', ''tmpab12''] = Some (Dir frames_dir)"
    using example_outside' by simp
  ultimately show ?thesis
    using example_wf example_name example_open example_opened_source example_first_call
      example_outside' example_archive1
    by simp
qed

subsection \<open>C8: unpacking the archive\<close>

text \<open>
  C8 is stated for every source directory. Let the source directory be the temporary
  directory itself, holding the archive of an earlier call. Opening the archive
  empties that file before the walk reads it: the archive written has one member, the
  empty file, and unpacking it does not give back the content the file had.
\<close>

theorem archive_inside_source_not_reproduced:
  "lookup (Dir [(''tmp'', Dir [(''extracted_frames.zip'', File (Raw ''earlier archive''))])]) [''tmp'']
     = Some (Dir [(''extracted_frames.zip'', File (Raw ''earlier archive''))])
   \<and> rev_inflate (rev_deflate (Raw ''earlier archive'')) = Raw ''earlier archive''
   \<and> create_zip_from_folder rev_deflate [''tmp'']
         (Dir [(''tmp'', Dir [(''extracted_frames.zip'', File (Raw ''earlier archive''))])])
         [''tmp''] default_zip_name
       = Inr ([''tmp'', ''extracted_frames.zip''],
              Dir [(''tmp'', Dir [(''extracted_frames.zip'',
                                   File (Zip [(''extracted_frames.zip'', [])]))])])
   \<and> map_of (regular_files (Dir [(''extracted_frames.zip'', File (Raw ''earlier archive''))]))
         [''extracted_frames.zip''] = Some (Raw ''earlier archive'')
   \<and> extractall rev_inflate [(''extracted_frames.zip'', [])] [''extracted_frames.zip'']
       = Some (Raw [])
   \<and> extractall rev_inflate [(''extracted_frames.zip'', [])]
       \<noteq> map_of (regular_files (Dir [(''extracted_frames.zip'', File (Raw ''earlier archive''))]))"
proof -
  have 1: "lookup (Dir [(''tmp'', Dir [(''extracted_frames.zip'', File (Raw ''earlier archive''))])])
        [''tmp'']
      = Some (Dir [(''extracted_frames.zip'', File (Raw ''earlier archive''))])"
    by code_simp
  have 2: "rev_inflate (rev_deflate (Raw ''earlier archive'')) = Raw ''earlier archive''"
    by code_simp
  have 3: "create_zip_from_folder rev_deflate [''tmp'']
         (Dir [(''tmp'', Dir [(''extracted_frames.zip'', File (Raw ''earlier archive''))])])
         [''tmp''] default_zip_name
       = Inr ([''tmp'', ''extracted_frames.zip''],
              Dir [(''tmp'', Dir [(''extracted_frames.zip'',
                                   File (Zip [(''extracted_frames.zip'', [])]))])])"
    by code_simp
  have 4: "map_of (regular_files (Dir [(''extracted_frames.zip'', File (Raw ''earlier archive''))]))
         [''extracted_frames.zip''] = Some (Raw ''earlier archive'')"
    by code_simp
  have 5: "extractall rev_inflate [(''extracted_frames.zip'', [])] [''extracted_frames.zip'']
       = Some (Raw [])"
    by code_simp
  have 6: "extractall rev_inflate [(''extracted_frames.zip'', [])]
       \<noteq> map_of (regular_files (Dir [(''extracted_frames.zip'', File (Raw ''earlier archive''))]))"
  proof
    assume "extractall rev_inflate [(''extracted_frames.zip'', [])]
       = map_of (regular_files (Dir [(''extracted_frames.zip'', File (Raw ''earlier archive''))]))"
    then have "extractall rev_inflate [(''extracted_frames.zip'', [])] [''extracted_frames.zip'']
       = map_of (regular_files (Dir [(''extracted_frames.zip'', File (Raw ''earlier archive''))]))
           [''extracted_frames.zip'']"
      by (rule fun_cong)
    then show False unfolding 4 5 by simp
  qed
  from 1 2 3 4 5 6 show ?thesis by (intro conjI)
qed

text \<open>
  C8, amended: for every source directory that does not contain the archive file being
  written (\<open>gettempdir()/zip_name\<close> is not under \<open>folder_path\<close>), and a decompression
  that inverts the compression on the contents of its files, unpacking the archive gives
  exactly the regular files under the directory, each at its relative path and with its
  content; the directory itself is left as it was.
\<close>

theorem archive_round_trip:
  assumes "wf_node fs" and "valid_name zip_name"
    and "lookup fs folder_path = Some (Dir es)"
    and "\<not> prefix folder_path (os_path_join gettempdir zip_name)"
    and "\<forall>(p, c) \<in> set (regular_files (Dir es)). inflate (deflate c) = c"
    and "create_zip_from_folder deflate gettempdir fs folder_path zip_name = Inr (zip_path, fs')"
  shows "\<exists>zipf. lookup fs' zip_path = Some (File (Zip zipf))
       \<and> extractall inflate zipf = map_of (regular_files (Dir es))
       \<and> lookup fs' folder_path = Some (Dir es)"
proof -
  from assms(6) obtain fs1 zipf where zp: "zip_path = os_path_join gettempdir zip_name"
    and op: "ZipFile_open zip_path fs = Inr fs1"
    and fw: "for_walk deflate fs1 folder_path (os_walk fs1 folder_path) [] = Inr zipf"
    and cl: "ZipFile_close zip_path zipf fs1 = Inr fs'"
    by (rule create_zip_opened)
  have np: "\<not> prefix folder_path zip_path" using assms(4) by (simp add: zp)
  have l1: "lookup fs1 folder_path = Some (Dir es)"
    using write_file_other [OF _ np, of "Raw []" fs fs1] op assms(3)
    by (simp add: ZipFile_open_def)
  have op': "ZipFile_open (os_path_join gettempdir zip_name) fs = Inr fs1"
    using op by (simp add: zp)
  have wf: "wf_node (Dir es)" using assms(1,2) op' l1 by (rule archive_members(2))
  have zipf: "zipf = map (\<lambda>(q, c). (sep_join q, deflate c)) (walk_files (Dir es))"
    using archive_members(1) [OF assms(1,2) op' l1, of deflate] fw by simp
  have 1: "lookup fs' zip_path = Some (File (Zip zipf))"
    using cl by (simp add: ZipFile_close_def write_file_lookup)
  have set_eq: "set (walk_files (Dir es)) = set (regular_files (Dir es))"
    using mset_eq_setD [OF mset_walk_files [of es]] .
  have "\<forall>(q, c) \<in> set (walk_files (Dir es)).
          q \<noteq> [] \<and> list_all valid_name q \<and> inflate (deflate c) = c"
    using walk_files_paths [OF wf] assms(5) set_eq by auto
  then have "extractall inflate zipf = map_of (rev (walk_files (Dir es)))"
    unfolding zipf by (rule extractall_sep_join)
  also have "\<dots> = map_of (regular_files (Dir es))"
  proof (rule map_of_inject_set [THEN iffD2])
    have "mset (map fst (walk_files (Dir es))) = mset (map fst (regular_files (Dir es)))"
      by (simp add: mset_walk_files)
    then have "distinct (map fst (walk_files (Dir es)))"
      using distinct_regular_files [OF wf] by (metis mset_eq_imp_distinct_iff)
    then show "distinct (map fst (rev (walk_files (Dir es))))" by (simp add: rev_map [symmetric])
    show "distinct (map fst (regular_files (Dir es)))" using wf by (rule distinct_regular_files)
    show "set (rev (walk_files (Dir es))) = set (regular_files (Dir es))" using set_eq by simp
  qed
  finally have 2: "extractall inflate zipf = map_of (regular_files (Dir es))" .
  have 3: "lookup fs' folder_path = Some (Dir es)"
    using write_file_other [OF _ np, of "Zip zipf" fs1 fs'] cl l1
    by (simp add: ZipFile_close_def)
  from 1 2 3 show ?thesis by blast
qed

theorem archive_round_trip_witness:
  "wf_node example_fs \<and> valid_name default_zip_name
   \<and> lookup example_fs [''tmp'', ''tmpab12''] = Some (Dir frames_dir)
   \<and> \<not> prefix [''tmp'', ''tmpab12''] (os_path_join [''tmp''] default_zip_name)
   \<and> list_all (\<lambda>(p, c). rev_inflate (rev_deflate c) = c) (regular_files (Dir frames_dir))
   \<and> create_zip_from_folder rev_deflate [''tmp''] example_fs [''tmp'', ''tmpab12'']
        default_zip_name = Inr (example_zip_path, example_fs1)
   \<and> lookup example_fs1 example_zip_path = Some (File (Zip first_archive))
   \<and> extractall rev_inflate first_archive [''sub'', ''x.txt''] = Some (Raw ''hello'')"
proof -
  from archive_round_trip
         [OF example_wf example_name example_source example_outside example_codec
             example_first_call]
  obtain zipf where z: "lookup example_fs1 example_zip_path = Some (File (Zip zipf))"
    and e: "extractall rev_inflate zipf = map_of (regular_files (Dir frames_dir))"
    by blast
  from z have "zipf = first_archive" by (simp add: example_archive1)
  with e have "extractall rev_inflate first_archive [''sub'', ''x.txt''] = Some (Raw ''hello'')"
    by (simp only: example_file)
  then show ?thesis
    using example_wf example_name example_source example_outside example_codec
      example_first_call example_archive1
    by (simp add: list_all_iff)
qed

subsection \<open>C10: two calls with the same archive name\<close>

text \<open>
  C10. Two successful calls with the same archive name, whatever their source directories,
  return the same path, the temporary directory joined with the archive name. After the
  first call the file at that path is the first archive; after the second it is the
  archive the second call has built, and every other regular file of the filesystem is as
  it was after the first call: none is added, removed or changed.
\<close>

theorem second_call_overwrites_archive:
  assumes "create_zip_from_folder deflate gettempdir fs folder1 zip_name = Inr (p1, fs1)"
    and "create_zip_from_folder deflate gettempdir fs1 folder2 zip_name = Inr (p2, fs2)"
  shows "p1 = os_path_join gettempdir zip_name \<and> p2 = p1
       \<and> (\<exists>z1. lookup fs1 p1 = Some (File (Zip z1)))
       \<and> (\<exists>z2 fs1'. ZipFile_open p1 fs1 = Inr fs1'
             \<and> for_walk deflate fs1' folder2 (os_walk fs1' folder2) [] = Inr z2
             \<and> lookup fs2 p1 = Some (File (Zip z2)))
       \<and> (\<forall>q c. q \<noteq> p1 \<longrightarrow> (lookup fs2 q = Some (File c)) = (lookup fs1 q = Some (File c)))"
proof -
  from assms(1) obtain fs0' z1 where p1: "p1 = os_path_join gettempdir zip_name"
    and cl1: "ZipFile_close p1 z1 fs0' = Inr fs1"
    by (rule create_zip_opened)
  from assms(2) obtain fs1' z2 where p2: "p2 = os_path_join gettempdir zip_name"
    and op2: "ZipFile_open p2 fs1 = Inr fs1'"
    and fw2: "for_walk deflate fs1' folder2 (os_walk fs1' folder2) [] = Inr z2"
    and cl2: "ZipFile_close p2 z2 fs1' = Inr fs2"
    by (rule create_zip_opened)
  have eq: "p2 = p1" by (simp add: p1 p2)
  have l1: "lookup fs1 p1 = Some (File (Zip z1))"
    using cl1 by (simp add: ZipFile_close_def write_file_lookup)
  have l1': "lookup fs1' p1 = Some (File (Raw []))"
    using op2 by (simp add: ZipFile_open_def write_file_lookup eq)
  have l2: "lookup fs2 p1 = Some (File (Zip z2))"
    using cl2 by (simp add: ZipFile_close_def write_file_lookup eq)
  have other: "(lookup fs2 q = Some (File c)) = (lookup fs1 q = Some (File c))" if "q \<noteq> p1" for q c
  proof (cases "prefix q p1")
    case False
    have "lookup fs1' q = lookup fs1 q"
      using write_file_other [OF _ False, of "Raw []" fs1 fs1'] op2 by (simp add: ZipFile_open_def eq)
    moreover have "lookup fs2 q = lookup fs1' q"
      using write_file_other [OF _ False, of "Zip z2" fs1' fs2] cl2 by (simp add: ZipFile_close_def eq)
    ultimately show ?thesis by simp
  next
    case True
    with that obtain r where r: "p1 = q @ r" "r \<noteq> []" by (auto simp: prefix_def)
    have "lookup n q \<noteq> Some (File c)" if "lookup n (q @ r) = Some m" for n m
    proof
      assume "lookup n q = Some (File c)"
      with that have "lookup (File c) r = Some m" by (simp add: lookup_append)
      with r(2) show False by (cases r) auto
    qed
    from this [of fs1] this [of fs2] l1 l2 show ?thesis by (simp add: r)
  qed
  from p1 eq l1 op2 fw2 l2 other show ?thesis by (auto simp: eq)
qed

theorem second_call_overwrites_archive_witness:
  "create_zip_from_folder rev_deflate [''tmp''] example_fs [''tmp'', ''tmpab12''] default_zip_name
     = Inr (example_zip_path, example_fs1)
   \<and> create_zip_from_folder rev_deflate [''tmp''] example_fs1 [''tmp'', ''tmpcd34''] default_zip_name
     = Inr (example_zip_path, example_fs2)
   \<and> example_zip_path = os_path_join [''tmp''] default_zip_name
   \<and> lookup example_fs1 example_zip_path = Some (File (Zip first_archive))
   \<and> lookup example_fs2 example_zip_path = Some (File (Zip [(''frame_0000.jpg'', ''zyx'')]))
   \<and> [''tmp'', ''tmpab12'', ''frame_0000.jpg''] \<noteq> example_zip_path
   \<and> (lookup example_fs2 [''tmp'', ''tmpab12'', ''frame_0000.jpg''] = Some (File (Raw ''abc'')))
       = (lookup example_fs1 [''tmp'', ''tmpab12'', ''frame_0000.jpg''] = Some (File (Raw ''abc'')))"
proof -
  have ne: "[''tmp'', ''tmpab12'', ''frame_0000.jpg''] \<noteq> example_zip_path"
    by (simp add: example_zip_path_def)
  from second_call_overwrites_archive [OF example_first_call example_second_call]
  have p: "example_zip_path = os_path_join [''tmp''] default_zip_name"
    and o: "\<forall>q c. q \<noteq> example_zip_path \<longrightarrow>
              (lookup example_fs2 q = Some (File c)) = (lookup example_fs1 q = Some (File c))"
    by blast+
  from o ne have "(lookup example_fs2 [''tmp'', ''tmpab12'', ''frame_0000.jpg''] = Some (File (Raw ''abc'')))
       = (lookup example_fs1 [''tmp'', ''tmpab12'', ''frame_0000.jpg''] = Some (File (Raw ''abc'')))"
    by blast
  with p ne show ?thesis
    using example_first_call example_second_call example_archive1 example_archive2
    by simp
qed

end
